theory Spec2Isabelle
  imports Complex_Main "HOL-Library.Product_Lexorder"
begin

section \<open>Keyframe graph and manifold optimisation types of ORB-SLAM3\<close>

text \<open>
  A shallow embedding of KeyFrame.cc (the keyframe graph: covisibility weights,
  spanning tree, culling, save and restore) and of the rotation helpers and the
  ImuCamPose updates of G2oTypes.cc.

  Conventions.
  \<^item> A pointer is an address of type \<open>nat\<close>; address \<open>0\<close> is the null pointer. The
    objects live in stores (total functions from addresses), and a member call through
    a null pointer is the error \<open>NullPointer\<close>.
  \<^item> A std::map keyed by pointers or ids is an association list kept in key order, a
    std::set of pointers a list kept in key order; iteration is from the head.
  \<^item> The operations are modelled as one thread runs them; the mutexes are not modelled.
  \<^item> float and double are idealised as \<open>real\<close> (no rounding). Where the source divides
    by a value that can be zero without a guard, the quotient is an IEEE value
    (\<open>fval\<close> below) so that infinities and NaN are visible.
\<close>

subsection \<open>Vectors and matrices (Eigen)\<close>

datatype vec3 = Vec3 (vx: real) (vy: real) (vz: real)

datatype mat3 = Mat3 (m00: real) (m01: real) (m02: real)
                     (m10: real) (m11: real) (m12: real)
                     (m20: real) (m21: real) (m22: real)

datatype vec6 = Vec6 (u0: real) (u1: real) (u2: real) (u3: real) (u4: real) (u5: real)

definition vec_zero :: vec3 where
  "vec_zero = Vec3 0 0 0"

definition vec_add :: "vec3 \<Rightarrow> vec3 \<Rightarrow> vec3" where
  "vec_add a b = Vec3 (vx a + vx b) (vy a + vy b) (vz a + vz b)"

definition vec_neg :: "vec3 \<Rightarrow> vec3" where
  "vec_neg a = Vec3 (- vx a) (- vy a) (- vz a)"

definition vec_scale :: "real \<Rightarrow> vec3 \<Rightarrow> vec3" where
  "vec_scale c a = Vec3 (c * vx a) (c * vy a) (c * vz a)"

definition vec_div :: "vec3 \<Rightarrow> real \<Rightarrow> vec3" where
  "vec_div a c = Vec3 (vx a / c) (vy a / c) (vz a / c)"

definition squaredNorm :: "vec3 \<Rightarrow> real" where
  "squaredNorm a = vx a * vx a + vy a * vy a + vz a * vz a"

definition mat_identity :: mat3 where
  "mat_identity = Mat3 1 0 0  0 1 0  0 0 1"

definition mat_add :: "mat3 \<Rightarrow> mat3 \<Rightarrow> mat3" where
  "mat_add A B = Mat3 (m00 A + m00 B) (m01 A + m01 B) (m02 A + m02 B)
                      (m10 A + m10 B) (m11 A + m11 B) (m12 A + m12 B)
                      (m20 A + m20 B) (m21 A + m21 B) (m22 A + m22 B)"

definition mat_scale :: "mat3 \<Rightarrow> real \<Rightarrow> mat3" where
  "mat_scale A c = Mat3 (m00 A * c) (m01 A * c) (m02 A * c)
                        (m10 A * c) (m11 A * c) (m12 A * c)
                        (m20 A * c) (m21 A * c) (m22 A * c)"

definition mat_div :: "mat3 \<Rightarrow> real \<Rightarrow> mat3" where
  "mat_div A c = Mat3 (m00 A / c) (m01 A / c) (m02 A / c)
                      (m10 A / c) (m11 A / c) (m12 A / c)
                      (m20 A / c) (m21 A / c) (m22 A / c)"

definition mat_mul :: "mat3 \<Rightarrow> mat3 \<Rightarrow> mat3" where
  "mat_mul A B = Mat3
     (m00 A * m00 B + m01 A * m10 B + m02 A * m20 B)
     (m00 A * m01 B + m01 A * m11 B + m02 A * m21 B)
     (m00 A * m02 B + m01 A * m12 B + m02 A * m22 B)
     (m10 A * m00 B + m11 A * m10 B + m12 A * m20 B)
     (m10 A * m01 B + m11 A * m11 B + m12 A * m21 B)
     (m10 A * m02 B + m11 A * m12 B + m12 A * m22 B)
     (m20 A * m00 B + m21 A * m10 B + m22 A * m20 B)
     (m20 A * m01 B + m21 A * m11 B + m22 A * m21 B)
     (m20 A * m02 B + m21 A * m12 B + m22 A * m22 B)"

definition mat_vec :: "mat3 \<Rightarrow> vec3 \<Rightarrow> vec3" where
  "mat_vec A v = Vec3 (m00 A * vx v + m01 A * vy v + m02 A * vz v)
                      (m10 A * vx v + m11 A * vy v + m12 A * vz v)
                      (m20 A * vx v + m21 A * vy v + m22 A * vz v)"

definition transpose3 :: "mat3 \<Rightarrow> mat3" where
  "transpose3 A = Mat3 (m00 A) (m10 A) (m20 A)
                       (m01 A) (m11 A) (m21 A)
                       (m02 A) (m12 A) (m22 A)"

definition trace3 :: "mat3 \<Rightarrow> real" where
  "trace3 A = m00 A + m11 A + m22 A"

definition det3 :: "mat3 \<Rightarrow> real" where
  "det3 A = m00 A * (m11 A * m22 A - m12 A * m21 A)
          - m01 A * (m10 A * m22 A - m12 A * m20 A)
          + m02 A * (m10 A * m21 A - m11 A * m20 A)"

text \<open>A rotation matrix: orthonormal with determinant one.\<close>

definition is_rotation :: "mat3 \<Rightarrow> bool" where
  "is_rotation R = (mat_mul R (transpose3 R) = mat_identity \<and> det3 R = 1)"

subsection \<open>Rotation helpers of G2oTypes.cc\<close>

definition skew :: "vec3 \<Rightarrow> mat3" where
  "skew w = Mat3 0 (- vz w) (vy w)
                 (vz w) 0 (- vx w)
                 (- vy w) (vx w) 0"

text \<open>
  normalizeRotation multiplies the two unitary factors of Eigen's JacobiSVD. The
  decomposition is a routine of the Eigen library; it is the parameter \<open>svd\<close>, which
  returns the pair (matrixU, matrixV).
\<close>

definition normalizeRotation :: "(mat3 \<Rightarrow> mat3 \<times> mat3) \<Rightarrow> mat3 \<Rightarrow> mat3" where
  "normalizeRotation svd R = (case svd R of (U, V) \<Rightarrow> mat_mul U (transpose3 V))"

definition expSO3 :: "(mat3 \<Rightarrow> mat3 \<times> mat3) \<Rightarrow> vec3 \<Rightarrow> mat3" where
  "expSO3 svd w =
     (let theta_squared = squaredNorm w;
          theta = sqrt theta_squared;
          W = skew w
      in if theta < 1 / 100000 then
           normalizeRotation svd
             (mat_add (mat_add mat_identity W) (mat_mul (mat_scale W (1 / 2)) W))
         else
           normalizeRotation svd
             (mat_add (mat_add mat_identity (mat_div (mat_scale W (sin theta)) theta))
                (mat_div (mat_scale (mat_mul W W) (1 - cos theta)) theta_squared)))"

text \<open>The vector the source names \<open>w\<close>: half the antisymmetric part of the matrix.\<close>

definition logSO3_w :: "mat3 \<Rightarrow> vec3" where
  "logSO3_w R = Vec3 ((m21 R - m12 R) / 2) ((m02 R - m20 R) / 2) ((m10 R - m01 R) / 2)"

text \<open>The local \<open>cos_theta\<close> of logSO3: \<open>(R.trace() - 1.0) * 0.5\<close>.\<close>

definition logSO3_cos_theta :: "mat3 \<Rightarrow> real" where
  "logSO3_cos_theta R = (trace3 R - 1) * (1 / 2)"

text \<open>
  logSO3, branch by branch as in the source. The doubles are real numbers here: the
  model tells which branch is taken and which expression is returned, in exact
  arithmetic. It does not express rounding, nor the overflow of a subtraction of two
  finite entries of very large magnitude to an infinity; statements about the size of
  the result are made only for matrices whose entries lie in \<open>[-1, 1]\<close>
  (\<open>entries_in_unit\<close>), as the entries of every rotation matrix do.
\<close>

definition logSO3 :: "mat3 \<Rightarrow> vec3" where
  "logSO3 R =
     (let w = logSO3_w R;
          cos_theta = logSO3_cos_theta R
      in if \<bar>cos_theta\<bar> > 1 then w
         else
           let theta = arccos cos_theta;
               sin_theta = sin theta
           in if \<bar>sin_theta\<bar> < 1 / 100000 then w
              else vec_div (vec_scale theta w) sin_theta)"

text \<open>Every entry of the matrix lies in \<open>[-1, 1]\<close>.\<close>

definition entries_in_unit :: "mat3 \<Rightarrow> bool" where
  "entries_in_unit R = (\<bar>m00 R\<bar> \<le> 1 \<and> \<bar>m01 R\<bar> \<le> 1 \<and> \<bar>m02 R\<bar> \<le> 1
                      \<and> \<bar>m10 R\<bar> \<le> 1 \<and> \<bar>m11 R\<bar> \<le> 1 \<and> \<bar>m12 R\<bar> \<le> 1
                      \<and> \<bar>m20 R\<bar> \<le> 1 \<and> \<bar>m21 R\<bar> \<le> 1 \<and> \<bar>m22 R\<bar> \<le> 1)"

subsection \<open>ImuCamPose\<close>

record ImuCamPose =
  twb :: vec3
  Rwb :: mat3
  Rcw :: "mat3 list"
  tcw :: "vec3 list"
  Rcb :: "mat3 list"
  tcb :: "vec3 list"
  Rbc :: "mat3 list"
  tbc :: "vec3 list"
  pCamera :: "nat list"
  bf :: real
  its :: int
  Rwb0 :: mat3
  DR :: mat3

text \<open>
  The loop that closes Update and UpdateW: for every camera \<open>i\<close> below
  \<open>pCamera.size()\<close>, \<open>Rcw[i] = Rcb[i] * Rbw\<close> and \<open>tcw[i] = Rcb[i] * tbw + tcb[i]\<close>.
  The constructors give all per-camera vectors the length of \<open>pCamera\<close>.
\<close>

definition update_camera_poses :: "ImuCamPose \<Rightarrow> ImuCamPose" where
  "update_camera_poses p =
     (let Rbw = transpose3 (Rwb p);
          tbw = mat_vec (mat_scale Rbw (- 1)) (twb p)
      in fold (\<lambda>i q. q\<lparr> Rcw := (Rcw q)[i := mat_mul (Rcb q ! i) Rbw],
                         tcw := (tcw q)[i := vec_add (mat_vec (Rcb q ! i) tbw) (tcb q ! i)] \<rparr>)
           [0 ..< length (pCamera p)] p)"

text \<open>
  Update: the argument is a pointer to six doubles or null. The result of
  \<open>normalizeRotation(Rwb)\<close> is a value the source does not assign to anything; the
  model binds it to a name that is not used.
\<close>

definition Update :: "(mat3 \<Rightarrow> mat3 \<times> mat3) \<Rightarrow> ImuCamPose \<Rightarrow> vec6 option \<Rightarrow> ImuCamPose" where
  "Update svd p update =
     (case update of
        None \<Rightarrow> p
      | Some u \<Rightarrow>
          let ur = Vec3 (u0 u) (u1 u) (u2 u);
              ut = Vec3 (u3 u) (u4 u) (u5 u);
              p1 = p\<lparr> twb := vec_add (twb p) (mat_vec (Rwb p) ut) \<rparr>;
              p2 = p1\<lparr> Rwb := mat_mul (Rwb p1) (expSO3 svd ur) \<rparr>;
              p3 = p2\<lparr> its := its p2 + 1 \<rparr>;
              p4 = (if its p3 \<ge> 3
                    then (let discarded = normalizeRotation svd (Rwb p3) in p3\<lparr> its := 0 \<rparr>)
                    else p3)
          in update_camera_poses p4)"

definition UpdateW :: "(mat3 \<Rightarrow> mat3 \<times> mat3) \<Rightarrow> ImuCamPose \<Rightarrow> vec6 option \<Rightarrow> ImuCamPose" where
  "UpdateW svd p update =
     (case update of
        None \<Rightarrow> p
      | Some u \<Rightarrow>
          let ur = Vec3 (u0 u) (u1 u) (u2 u);
              ut = Vec3 (u3 u) (u4 u) (u5 u);
              p1 = p\<lparr> DR := mat_mul (expSO3 svd ur) (DR p) \<rparr>;
              p2 = p1\<lparr> Rwb := mat_mul (DR p1) (Rwb0 p1) \<rparr>;
              p3 = p2\<lparr> twb := vec_add (twb p2) ut \<rparr>;
              p4 = p3\<lparr> its := its p3 + 1 \<rparr>;
              p5 = (if its p4 \<ge> 5
                    then (let D = DR p4;
                              D0 = Mat3 (m00 D) (m01 D) 0  (m10 D) (m11 D) 0  0 0 (m22 D);
                              p' = p4\<lparr> DR := D0 \<rparr>;
                              discarded = normalizeRotation svd (DR p')
                          in p'\<lparr> its := 0 \<rparr>)
                    else p4)
          in update_camera_poses p5)"

subsection \<open>Errors, pointers and containers\<close>

text \<open>
  InvalidArgument is the \<open>std::invalid_argument\<close> that ChangeParent throws; NullPointer
  is a member call through a null pointer.
\<close>

datatype error = InvalidArgument | NullPointer

type_synonym kfptr = nat
type_synonym mpptr = nat
type_synonym mapptr = nat
type_synonym camptr = nat

text \<open>A loop whose body can fail: the first error ends it.\<close>

fun foldE :: "('s \<Rightarrow> 'a \<Rightarrow> error + 's) \<Rightarrow> 'a list \<Rightarrow> 's \<Rightarrow> error + 's" where
  "foldE f [] s = Inr s"
| "foldE f (x # xs) s = (case f s x of Inl e \<Rightarrow> Inl e | Inr s' \<Rightarrow> foldE f xs s')"

text \<open>std::map with keys in increasing order: count, operator[] on a present key
  (the value-initialised 0 otherwise), assignment through operator[], erase.\<close>

definition stdmap_count :: "(nat \<times> 'v) list \<Rightarrow> nat \<Rightarrow> bool" where
  "stdmap_count m k = (map_of m k \<noteq> None)"

definition stdmap_at :: "(nat \<times> int) list \<Rightarrow> nat \<Rightarrow> int" where
  "stdmap_at m k = (case map_of m k of None \<Rightarrow> 0 | Some v \<Rightarrow> v)"

fun stdmap_set :: "nat \<Rightarrow> 'v \<Rightarrow> (nat \<times> 'v) list \<Rightarrow> (nat \<times> 'v) list" where
  "stdmap_set k v [] = [(k, v)]"
| "stdmap_set k v ((k', v') # m) =
     (if k < k' then (k, v) # (k', v') # m
      else if k = k' then (k, v) # m
      else (k', v') # stdmap_set k v m)"

definition stdmap_erase :: "nat \<Rightarrow> (nat \<times> 'v) list \<Rightarrow> (nat \<times> 'v) list" where
  "stdmap_erase k m = filter (\<lambda>e. fst e \<noteq> k) m"

text \<open>A dictionary lookup \<open>m[k]\<close> whose values are pointers: null when the key is absent.\<close>

definition stdmap_ptr :: "(nat \<times> nat) list \<Rightarrow> nat \<Rightarrow> nat" where
  "stdmap_ptr m k = (case map_of m k of None \<Rightarrow> 0 | Some p \<Rightarrow> p)"

text \<open>std::set of pointers with elements in increasing order: insert and erase.\<close>

definition stdset_insert :: "nat \<Rightarrow> nat list \<Rightarrow> nat list" where
  "stdset_insert x xs = (if x \<in> set xs then xs else insort x xs)"

definition stdset_erase :: "nat \<Rightarrow> nat list \<Rightarrow> nat list" where
  "stdset_erase x xs = filter (\<lambda>y. y \<noteq> x) xs"

subsection \<open>Poses (Sophus::SE3f)\<close>

record SE3 =
  rotationMatrix :: mat3
  translation :: vec3

definition SE3_identity :: SE3 where
  "SE3_identity = \<lparr> rotationMatrix = mat_identity, translation = vec_zero \<rparr>"

definition SE3_mul :: "SE3 \<Rightarrow> SE3 \<Rightarrow> SE3" where
  "SE3_mul a b = \<lparr> rotationMatrix = mat_mul (rotationMatrix a) (rotationMatrix b),
                   translation = vec_add (mat_vec (rotationMatrix a) (translation b)) (translation a) \<rparr>"

definition SE3_inverse :: "SE3 \<Rightarrow> SE3" where
  "SE3_inverse a = \<lparr> rotationMatrix = transpose3 (rotationMatrix a),
                     translation = mat_vec (mat_scale (transpose3 (rotationMatrix a)) (- 1)) (translation a) \<rparr>"

subsection \<open>The objects\<close>

text \<open>
  The members of KeyFrame that the modelled operations read or write. Features,
  descriptors, the bag of words, the grid, the IMU calibration and preintegration and
  the stereo extrinsics are left out: no modelled operation but the constructor and
  the IMU lines of PreSave and PostLoad touches them. Ids are \<open>nat\<close>: they are issued by
  the counter \<open>nNextId\<close>, far below the range where the conversions between
  \<open>unsigned long\<close> and \<open>long long\<close> of the backup members would wrap.
\<close>

record KeyFrame =
  mnId :: nat
  mpMap :: mapptr
  N :: int
  mTcw :: SE3
  mTwc :: SE3
  mRcw :: mat3
  mRwc :: mat3
  mTcp :: SE3
  fx :: real
  fy :: real
  cx :: real
  cy :: real
  invfx :: real
  invfy :: real
  mnMinX :: real
  mnMinY :: real
  mnMaxX :: real
  mnMaxY :: real
  mDistCoef :: "real list"
  mvpMapPoints :: "mpptr list"
  mConnectedKeyFrameWeights :: "(kfptr \<times> int) list"
  mvpOrderedConnectedKeyFrames :: "kfptr list"
  mvOrderedWeights :: "int list"
  mbFirstConnection :: bool
  mpParent :: kfptr
  mspChildrens :: "kfptr list"
  mspLoopEdges :: "kfptr list"
  mspMergeEdges :: "kfptr list"
  mbNotErase :: bool
  mbToBeErased :: bool
  mbBad :: bool
  mPrevKF :: kfptr
  mNextKF :: kfptr
  mpCamera :: camptr
  mpCamera2 :: camptr
  mvBackupMapPointsId :: "int list"
  mBackupConnectedKeyFrameIdWeights :: "(nat \<times> int) list"
  mBackupParentId :: int
  mvBackupChildrensId :: "nat list"
  mvBackupLoopEdgesId :: "nat list"
  mvBackupMergeEdgesId :: "nat list"
  mnBackupIdCamera :: int
  mnBackupIdCamera2 :: int
  mBackupPrevKFId :: int
  mBackupNextKFId :: int

text \<open>The default constructor \<open>KeyFrame::KeyFrame()\<close>; members it leaves
  uninitialised are zero here.\<close>

definition KeyFrame_default :: KeyFrame where
  "KeyFrame_default = \<lparr> mnId = 0, mpMap = 0, N = 0,
     mTcw = SE3_identity, mTwc = SE3_identity, mRcw = mat_identity, mRwc = mat_identity,
     mTcp = SE3_identity,
     fx = 0, fy = 0, cx = 0, cy = 0, invfx = 0, invfy = 0,
     mnMinX = 0, mnMinY = 0, mnMaxX = 0, mnMaxY = 0, mDistCoef = [],
     mvpMapPoints = [], mConnectedKeyFrameWeights = [],
     mvpOrderedConnectedKeyFrames = [], mvOrderedWeights = [],
     mbFirstConnection = True, mpParent = 0, mspChildrens = [],
     mspLoopEdges = [], mspMergeEdges = [],
     mbNotErase = False, mbToBeErased = False, mbBad = False,
     mPrevKF = 0, mNextKF = 0, mpCamera = 0, mpCamera2 = 0,
     mvBackupMapPointsId = [], mBackupConnectedKeyFrameIdWeights = [],
     mBackupParentId = 0, mvBackupChildrensId = [], mvBackupLoopEdgesId = [],
     mvBackupMergeEdgesId = [], mnBackupIdCamera = 0, mnBackupIdCamera2 = 0,
     mBackupPrevKFId = 0, mBackupNextKFId = 0 \<rparr>"

text \<open>
  MapPoint and Map are classes of other files; the members the keyframe code reaches
  through their accessors (\<open>isBad\<close>, \<open>GetObservations\<close>, \<open>GetWorldPos\<close>, \<open>mnId\<close>;
  \<open>GetInitKFid\<close>) are fields here, with a suffix where the name is also a KeyFrame
  member.
\<close>

record MapPoint =
  mnId_mp :: nat
  mbBad_mp :: bool
  mObservations :: "(kfptr \<times> int \<times> int) list"
  mWorldPos :: vec3

record SlamMap =
  mnInitKFid :: nat
  mspKeyFrames :: "kfptr list"

text \<open>
  The heap: the keyframes, the map points, the maps, the id of every camera object
  (\<open>GeometricCamera::GetId\<close>), and the keyframes the place-recognition database
  (\<open>mpKeyFrameDB\<close>) indexes.
\<close>

record world =
  kfs :: "kfptr \<Rightarrow> KeyFrame"
  mps :: "mpptr \<Rightarrow> MapPoint"
  maps :: "mapptr \<Rightarrow> SlamMap"
  camIds :: "camptr \<Rightarrow> nat"
  kfdb :: "kfptr list"

definition upd_kf :: "world \<Rightarrow> kfptr \<Rightarrow> (KeyFrame \<Rightarrow> KeyFrame) \<Rightarrow> world" where
  "upd_kf s p f = s\<lparr> kfs := (kfs s)(p := f (kfs s p)) \<rparr>"

text \<open>
  Modelled from the spec: \<open>MapPoint::EraseObservation\<close>, \<open>Map::EraseKeyFrame\<close> and
  \<open>KeyFrameDatabase::erase\<close> are defined in files that are not among the sources. The
  spec says of culling that every still-referenced landmark is told this observation is
  gone, and that the keyframe notifies the owning map and the indexing structure of the
  removal: each removes the keyframe from its own container.
\<close>

definition MapPoint_EraseObservation :: "world \<Rightarrow> mpptr \<Rightarrow> kfptr \<Rightarrow> world" where
  "MapPoint_EraseObservation s pMP pKF =
     s\<lparr> mps := (mps s)(pMP := (mps s pMP)\<lparr> mObservations := stdmap_erase pKF (mObservations (mps s pMP)) \<rparr>) \<rparr>"

definition Map_EraseKeyFrame :: "world \<Rightarrow> mapptr \<Rightarrow> kfptr \<Rightarrow> world" where
  "Map_EraseKeyFrame s pMap pKF =
     s\<lparr> maps := (maps s)(pMap := (maps s pMap)\<lparr> mspKeyFrames := stdset_erase pKF (mspKeyFrames (maps s pMap)) \<rparr>) \<rparr>"

definition KeyFrameDatabase_erase :: "world \<Rightarrow> kfptr \<Rightarrow> world" where
  "KeyFrameDatabase_erase s pKF = s\<lparr> kfdb := stdset_erase pKF (kfdb s) \<rparr>"

subsection \<open>Covisibility: AddConnection, UpdateBestCovisibles, queries\<close>

definition isBad :: "world \<Rightarrow> kfptr \<Rightarrow> bool" where
  "isBad s this = mbBad (kfs s this)"

text \<open>The loop of UpdateBestCovisibles over the sorted pairs: a neighbour that is
  not bad is pushed to the front of both lists.\<close>

fun push_front_not_bad ::
  "world \<Rightarrow> (int \<times> kfptr) list \<Rightarrow> kfptr list \<times> int list \<Rightarrow> error + (kfptr list \<times> int list)" where
  "push_front_not_bad s [] acc = Inr acc"
| "push_front_not_bad s ((w, pKF) # vPairs) (lKFs, lWs) =
     (if pKF = 0 then Inl NullPointer
      else if \<not> isBad s pKF then push_front_not_bad s vPairs (pKF # lKFs, w # lWs)
      else push_front_not_bad s vPairs (lKFs, lWs))"

definition UpdateBestCovisibles :: "world \<Rightarrow> kfptr \<Rightarrow> error + world" where
  "UpdateBestCovisibles s this =
     (let vPairs = sort (map (\<lambda>(pKF, w). (w, pKF)) (mConnectedKeyFrameWeights (kfs s this)))
      in case push_front_not_bad s vPairs ([], []) of
           Inl e \<Rightarrow> Inl e
         | Inr (lKFs, lWs) \<Rightarrow>
             Inr (upd_kf s this (\<lambda>k. k\<lparr> mvpOrderedConnectedKeyFrames := lKFs,
                                          mvOrderedWeights := lWs \<rparr>)))"

definition AddConnection :: "world \<Rightarrow> kfptr \<Rightarrow> kfptr \<Rightarrow> int \<Rightarrow> error + world" where
  "AddConnection s this pKF weight =
     (let m = mConnectedKeyFrameWeights (kfs s this)
      in if \<not> stdmap_count m pKF then
           UpdateBestCovisibles
             (upd_kf s this (\<lambda>k. k\<lparr> mConnectedKeyFrameWeights := stdmap_set pKF weight m \<rparr>)) this
         else if stdmap_at m pKF \<noteq> weight then
           UpdateBestCovisibles
             (upd_kf s this (\<lambda>k. k\<lparr> mConnectedKeyFrameWeights := stdmap_set pKF weight m \<rparr>)) this
         else Inr s)"

definition EraseConnection :: "world \<Rightarrow> kfptr \<Rightarrow> kfptr \<Rightarrow> error + world" where
  "EraseConnection s this pKF =
     (let m = mConnectedKeyFrameWeights (kfs s this)
      in if stdmap_count m pKF then
           UpdateBestCovisibles
             (upd_kf s this (\<lambda>k. k\<lparr> mConnectedKeyFrameWeights := stdmap_erase pKF m \<rparr>)) this
         else Inr s)"

definition GetVectorCovisibleKeyFrames :: "world \<Rightarrow> kfptr \<Rightarrow> kfptr list" where
  "GetVectorCovisibleKeyFrames s this = mvpOrderedConnectedKeyFrames (kfs s this)"

definition GetWeight :: "world \<Rightarrow> kfptr \<Rightarrow> kfptr \<Rightarrow> int" where
  "GetWeight s this pKF =
     (let m = mConnectedKeyFrameWeights (kfs s this)
      in if stdmap_count m pKF then stdmap_at m pKF else 0)"

text \<open>
  Modelled from the spec: the comparator \<open>KeyFrame::weightComp\<close> is declared in
  KeyFrame.h, which is not among the sources. The ordered covisible list is kept in
  descending weight, so the comparator handed to \<open>std::upper_bound\<close> is the descending
  order on weights.
\<close>

definition weightComp :: "int \<Rightarrow> int \<Rightarrow> bool" where
  "weightComp a b = (a > b)"

text \<open>\<open>std::upper_bound\<close> as the standard library runs it: a binary search for the
  first position whose element \<open>e\<close> satisfies \<open>comp(val, e)\<close>.\<close>

function upper_bound_loop :: "int list \<Rightarrow> int \<Rightarrow> nat \<Rightarrow> nat \<Rightarrow> nat" where
  "upper_bound_loop ws val first len =
     (if len > 0 then
        (let half = len div 2; middle = first + half
         in if weightComp val (ws ! middle) then upper_bound_loop ws val first half
            else upper_bound_loop ws val (middle + 1) (len - half - 1))
      else first)"
  by pat_completeness auto
termination
  by (relation "measure (\<lambda>(ws, val, first, len). len)") auto

declare upper_bound_loop.simps [simp del]

definition upper_bound :: "int list \<Rightarrow> int \<Rightarrow> nat" where
  "upper_bound ws val = upper_bound_loop ws val 0 (length ws)"

definition GetCovisiblesByWeight :: "world \<Rightarrow> kfptr \<Rightarrow> int \<Rightarrow> kfptr list" where
  "GetCovisiblesByWeight s this w =
     (let k = kfs s this
      in if mvpOrderedConnectedKeyFrames k = [] then []
         else
           let it = upper_bound (mvOrderedWeights k) w
           in if it = length (mvOrderedWeights k) \<and> last (mvOrderedWeights k) < w then []
              else take it (mvpOrderedConnectedKeyFrames k))"

subsection \<open>Spanning tree: AddChild, EraseChild, ChangeParent\<close>

definition AddChild :: "world \<Rightarrow> kfptr \<Rightarrow> kfptr \<Rightarrow> world" where
  "AddChild s this pKF = upd_kf s this (\<lambda>k. k\<lparr> mspChildrens := stdset_insert pKF (mspChildrens k) \<rparr>)"

definition EraseChild :: "world \<Rightarrow> kfptr \<Rightarrow> kfptr \<Rightarrow> world" where
  "EraseChild s this pKF = upd_kf s this (\<lambda>k. k\<lparr> mspChildrens := stdset_erase pKF (mspChildrens k) \<rparr>)"

definition ChangeParent :: "world \<Rightarrow> kfptr \<Rightarrow> kfptr \<Rightarrow> error + world" where
  "ChangeParent s this pKF =
     (if pKF = this then Inl InvalidArgument
      else
        let s1 = upd_kf s this (\<lambda>k. k\<lparr> mpParent := pKF \<rparr>)
        in if pKF = 0 then Inl NullPointer else Inr (AddChild s1 pKF this))"

subsection \<open>UpdateConnections\<close>

text \<open>The inner loop: the observers of one map point, skipping this keyframe (by
  id), bad keyframes and keyframes of another map.\<close>

fun count_observations ::
  "world \<Rightarrow> kfptr \<Rightarrow> (kfptr \<times> int \<times> int) list \<Rightarrow> (kfptr \<times> int) list \<Rightarrow> error + (kfptr \<times> int) list" where
  "count_observations s this [] KFcounter = Inr KFcounter"
| "count_observations s this ((pKFi, idx) # observations) KFcounter =
     (if pKFi = 0 then Inl NullPointer
      else if mnId (kfs s pKFi) = mnId (kfs s this) \<or> isBad s pKFi
              \<or> mpMap (kfs s pKFi) \<noteq> mpMap (kfs s this)
        then count_observations s this observations KFcounter
      else count_observations s this observations
             (stdmap_set pKFi (stdmap_at KFcounter pKFi + 1) KFcounter))"

text \<open>The outer loop over the landmark slots of the keyframe.\<close>

fun count_map_points ::
  "world \<Rightarrow> kfptr \<Rightarrow> mpptr list \<Rightarrow> (kfptr \<times> int) list \<Rightarrow> error + (kfptr \<times> int) list" where
  "count_map_points s this [] KFcounter = Inr KFcounter"
| "count_map_points s this (pMP # vpMP) KFcounter =
     (if pMP = 0 then count_map_points s this vpMP KFcounter
      else if mbBad_mp (mps s pMP) then count_map_points s this vpMP KFcounter
      else case count_observations s this (mObservations (mps s pMP)) KFcounter of
             Inl e \<Rightarrow> Inl e
           | Inr KFcounter' \<Rightarrow> count_map_points s this vpMP KFcounter')"

text \<open>The threshold \<open>th\<close> of UpdateConnections.\<close>

definition th :: int where
  "th = 15"

text \<open>The loop over KFcounter: tracks the maximum and promotes every neighbour whose
  tally reaches the threshold. The accumulator is (world, nmax, pKFmax, vPairs).\<close>

fun promote_loop ::
  "kfptr \<Rightarrow> (kfptr \<times> int) list \<Rightarrow> world \<times> int \<times> kfptr \<times> (int \<times> kfptr) list
     \<Rightarrow> error + (world \<times> int \<times> kfptr \<times> (int \<times> kfptr) list)" where
  "promote_loop this [] acc = Inr acc"
| "promote_loop this ((pKFi, n) # rest) (s, nmax, pKFmax, vPairs) =
     (let nmax' = (if n > nmax then n else nmax);
          pKFmax' = (if n > nmax then pKFi else pKFmax)
      in if n \<ge> th then
           (if pKFi = 0 then Inl NullPointer
            else case AddConnection s pKFi this n of
                   Inl e \<Rightarrow> Inl e
                 | Inr s' \<Rightarrow> promote_loop this rest (s', nmax', pKFmax', vPairs @ [(n, pKFi)]))
         else promote_loop this rest (s, nmax', pKFmax', vPairs))"

text \<open>The loop that reverses the sorted pairs into the two lists by push_front.\<close>

definition push_front_all :: "(int \<times> kfptr) list \<Rightarrow> kfptr list \<times> int list" where
  "push_front_all vPairs = fold (\<lambda>(w, pKF) (lKFs, lWs). (pKF # lKFs, w # lWs)) vPairs ([], [])"

text \<open>The fallback after the loop: when no neighbour reached the threshold, the one
  with the highest tally is promoted.\<close>

definition promote_max ::
  "kfptr \<Rightarrow> world \<times> int \<times> kfptr \<times> (int \<times> kfptr) list \<Rightarrow> error + (world \<times> (int \<times> kfptr) list)" where
  "promote_max this acc =
     (case acc of (s1, nmax, pKFmax, vPairs) \<Rightarrow>
        if vPairs = [] then
          (if pKFmax = 0 then Inl NullPointer
           else (case AddConnection s1 pKFmax this nmax of
                   Inl e \<Rightarrow> Inl e
                 | Inr s2 \<Rightarrow> Inr (s2, [(nmax, pKFmax)])))
        else Inr (s1, vPairs))"

text \<open>The last block: the new weight map and ordered vectors are stored, and on the
  first connection of a keyframe that is not the initial one the parent is set.\<close>

definition store_connections ::
  "world \<Rightarrow> kfptr \<Rightarrow> (kfptr \<times> int) list \<Rightarrow> (int \<times> kfptr) list \<Rightarrow> error + world" where
  "store_connections s2 this KFcounter vPairs =
     (let lists = push_front_all (sort vPairs);
          s3 = upd_kf s2 this (\<lambda>k. k\<lparr> mConnectedKeyFrameWeights := KFcounter,
                                        mvpOrderedConnectedKeyFrames := fst lists,
                                        mvOrderedWeights := snd lists \<rparr>)
      in if mbFirstConnection (kfs s3 this) then
           (if mpMap (kfs s3 this) = 0 then Inl NullPointer
            else if mnId (kfs s3 this) \<noteq> mnInitKFid (maps s3 (mpMap (kfs s3 this))) then
              (let s4 = upd_kf s3 this (\<lambda>k. k\<lparr> mpParent := hd (mvpOrderedConnectedKeyFrames k) \<rparr>)
               in if mpParent (kfs s4 this) = 0 then Inl NullPointer
                  else Inr (upd_kf (AddChild s4 (mpParent (kfs s4 this)) this) this
                              (\<lambda>k. k\<lparr> mbFirstConnection := False \<rparr>)))
            else Inr s3)
         else Inr s3)"

text \<open>The flag \<open>upParent\<close> only selects logging.\<close>

definition UpdateConnections :: "world \<Rightarrow> kfptr \<Rightarrow> bool \<Rightarrow> error + world" where
  "UpdateConnections s this upParent =
     (case count_map_points s this (mvpMapPoints (kfs s this)) [] of
        Inl e \<Rightarrow> Inl e
      | Inr KFcounter \<Rightarrow>
          if KFcounter = [] then Inr s
          else
            (case promote_loop this KFcounter (s, 0, 0, []) of
               Inl e \<Rightarrow> Inl e
             | Inr acc \<Rightarrow>
                 (case promote_max this acc of
                    Inl e \<Rightarrow> Inl e
                  | Inr (s2, vPairs) \<Rightarrow> store_connections s2 this KFcounter vPairs)))"

subsection \<open>Culling: SetBadFlag and SetErase\<close>

text \<open>
  The three nested loops that look for the best (child, parent) pair. The accumulator
  is (max, pC, pP, bContinue); the two pointers are not initialised by the source and
  are null here until a pair is found.
\<close>

fun scan_candidates ::
  "world \<Rightarrow> kfptr \<Rightarrow> kfptr \<Rightarrow> kfptr list \<Rightarrow> int \<times> kfptr \<times> kfptr \<times> bool
     \<Rightarrow> error + (int \<times> kfptr \<times> kfptr \<times> bool)" where
  "scan_candidates s pKF vpC [] best = Inr best"
| "scan_candidates s pKF vpC (spc # cands) (mx, pC, pP, bContinue) =
     (if vpC = 0 \<or> spc = 0 then Inl NullPointer
      else if mnId (kfs s vpC) = mnId (kfs s spc) then
        (let w = GetWeight s pKF vpC
         in if w > mx then scan_candidates s pKF vpC cands (w, pKF, vpC, True)
            else scan_candidates s pKF vpC cands (mx, pC, pP, bContinue))
      else scan_candidates s pKF vpC cands (mx, pC, pP, bContinue))"

fun scan_connected ::
  "world \<Rightarrow> kfptr \<Rightarrow> kfptr list \<Rightarrow> kfptr list \<Rightarrow> int \<times> kfptr \<times> kfptr \<times> bool
     \<Rightarrow> error + (int \<times> kfptr \<times> kfptr \<times> bool)" where
  "scan_connected s pKF [] cands best = Inr best"
| "scan_connected s pKF (vpC # vpConnected) cands best =
     (case scan_candidates s pKF vpC cands best of
        Inl e \<Rightarrow> Inl e
      | Inr best' \<Rightarrow> scan_connected s pKF vpConnected cands best')"

fun scan_children ::
  "world \<Rightarrow> kfptr list \<Rightarrow> kfptr list \<Rightarrow> int \<times> kfptr \<times> kfptr \<times> bool
     \<Rightarrow> error + (int \<times> kfptr \<times> kfptr \<times> bool)" where
  "scan_children s [] cands best = Inr best"
| "scan_children s (pKF # children) cands best =
     (if pKF = 0 then Inl NullPointer
      else if isBad s pKF then scan_children s children cands best
      else case scan_connected s pKF (GetVectorCovisibleKeyFrames s pKF) cands best of
             Inl e \<Rightarrow> Inl e
           | Inr best' \<Rightarrow> scan_children s children cands best')"

text \<open>The pair the scan selects has its child among the children scanned; this is
  what makes the loop below terminate.\<close>

lemma scan_candidates_sel:
  "scan_candidates s pKF vpC cands (m0, c0, p0, b0) = Inr (mx, pC, pP, b) \<Longrightarrow> b \<Longrightarrow>
   pC = pKF \<or> (b0 \<and> pC = c0)"
  by (induction s pKF vpC cands "(m0, c0, p0, b0)" arbitrary: m0 c0 p0 b0 rule: scan_candidates.induct)
     (auto simp: Let_def split: if_splits)

lemma scan_connected_sel:
  "scan_connected s pKF vpConnected cands (m0, c0, p0, b0) = Inr (mx, pC, pP, b) \<Longrightarrow> b \<Longrightarrow>
   pC = pKF \<or> (b0 \<and> pC = c0)"
proof (induction vpConnected arbitrary: m0 c0 p0 b0)
  case Nil
  then show ?case by auto
next
  case (Cons c cs)
  from Cons.prems obtain m1 c1 p1 b1 where
    1: "scan_candidates s pKF c cands (m0, c0, p0, b0) = Inr (m1, c1, p1, b1)" and
    2: "scan_connected s pKF cs cands (m1, c1, p1, b1) = Inr (mx, pC, pP, b)"
    by (auto split: sum.splits)
  from Cons.IH [OF 2 \<open>b\<close>] have "pC = pKF \<or> (b1 \<and> pC = c1)" .
  then show ?case using scan_candidates_sel [OF 1] by auto
qed

lemma scan_children_sel:
  "scan_children s children cands (m0, c0, p0, b0) = Inr (mx, pC, pP, b) \<Longrightarrow> b \<Longrightarrow>
   pC \<in> set children \<or> (b0 \<and> pC = c0)"
proof (induction children arbitrary: m0 c0 p0 b0)
  case Nil
  then show ?case by auto
next
  case (Cons c cs)
  show ?case
  proof (cases "isBad s c")
    case True
    with Cons.prems have "scan_children s cs cands (m0, c0, p0, b0) = Inr (mx, pC, pP, b)"
      by (auto split: if_splits)
    from Cons.IH [OF this \<open>b\<close>] show ?thesis by auto
  next
    case False
    with Cons.prems obtain m1 c1 p1 b1 where
      1: "scan_connected s c (GetVectorCovisibleKeyFrames s c) cands (m0, c0, p0, b0) = Inr (m1, c1, p1, b1)" and
      2: "scan_children s cs cands (m1, c1, p1, b1) = Inr (mx, pC, pP, b)"
      by (auto split: sum.splits if_splits)
    from Cons.IH [OF 2 \<open>b\<close>] have "pC \<in> set cs \<or> (b1 \<and> pC = c1)" .
    then show ?thesis using scan_connected_sel [OF 1] by auto
  qed
qed

lemma set_stdset_insert [simp]: "set (stdset_insert x xs) = insert x (set xs)"
  by (auto simp: stdset_insert_def set_insort_key)

lemma set_stdset_erase [simp]: "set (stdset_erase x xs) = set xs - {x}"
  by (auto simp: stdset_erase_def)

lemma stdset_insert_member: "x \<in> set xs \<Longrightarrow> stdset_insert x xs = xs"
  by (simp add: stdset_insert_def)

lemma length_stdset_erase: "x \<in> set xs \<Longrightarrow> length (stdset_erase x xs) < length xs"
  unfolding stdset_erase_def
  by (induction xs) (auto simp: less_Suc_eq_le)

lemma ChangeParent_children:
  assumes "ChangeParent s pC pP = Inr s1" and "pC \<in> set (mspChildrens (kfs s this))"
  shows "mspChildrens (kfs s1 this) = mspChildrens (kfs s this)"
  using assms
  by (auto simp: ChangeParent_def AddChild_def upd_kf_def Let_def stdset_insert_member
      split: if_splits)

text \<open>
  The while loop of SetBadFlag: while children remain, reparent the best pair, add the
  child to the candidates and erase it from the children of this keyframe; stop when
  no pair is found.
\<close>

function reparent_loop :: "world \<Rightarrow> kfptr \<Rightarrow> kfptr list \<Rightarrow> error + (world \<times> kfptr list)" where
  "reparent_loop s this sParentCandidates =
     (if mspChildrens (kfs s this) = [] then Inr (s, sParentCandidates)
      else
        case scan_children s (mspChildrens (kfs s this)) sParentCandidates (- 1, 0, 0, False) of
          Inl e \<Rightarrow> Inl e
        | Inr (mx, pC, pP, bContinue) \<Rightarrow>
            if bContinue then
              (case ChangeParent s pC pP of
                 Inl e \<Rightarrow> Inl e
               | Inr s1 \<Rightarrow>
                   reparent_loop
                     (upd_kf s1 this (\<lambda>k. k\<lparr> mspChildrens := stdset_erase pC (mspChildrens k) \<rparr>))
                     this (stdset_insert pC sParentCandidates))
            else Inr (s, sParentCandidates))"
  by pat_completeness auto
termination
proof (relation "measure (\<lambda>(s, this, cands). length (mspChildrens (kfs s this)))")
  show "wf (measure (\<lambda>(s, this, cands). length (mspChildrens (kfs s this))))" by simp
next
  fix s this sParentCandidates x2 x y xa ya xb yb x2a
  assume a: "scan_children s (mspChildrens (kfs s this)) sParentCandidates (- 1, 0, 0, False) = Inr x2"
    "(x, y) = x2" "(xa, ya) = y" "(xb, yb) = ya" "yb" "ChangeParent s xa xb = Inr x2a"
  then have "scan_children s (mspChildrens (kfs s this)) sParentCandidates (- 1, 0, 0, False) = Inr (x, xa, xb, yb)"
    by auto
  from scan_children_sel [OF this \<open>yb\<close>]
  have m: "xa \<in> set (mspChildrens (kfs s this))" by simp
  from ChangeParent_children [OF a(6) m] length_stdset_erase [OF m]
  show "((upd_kf x2a this (\<lambda>k. k\<lparr>mspChildrens := stdset_erase xa (mspChildrens k)\<rparr>), this,
         stdset_insert xa sParentCandidates), s, this, sParentCandidates)
       \<in> measure (\<lambda>(s, this, cands). length (mspChildrens (kfs s this)))"
    by (simp add: upd_kf_def)
qed

declare reparent_loop.simps [simp del]

text \<open>
  SetBadFlag, in the order of the source. The loops over the weight map and over the
  remaining children run over the container as it is when the loop starts.

  First part (after the two guards): every neighbour erases its connection to this
  keyframe, every landmark its observation, and the keyframe clears its weight map
  and its ordered keyframe vector. The vector of ordered weights is not cleared.
\<close>

definition SetBadFlag_detach :: "world \<Rightarrow> kfptr \<Rightarrow> error + world" where
  "SetBadFlag_detach s this =
     (case foldE (\<lambda>s' pKF. if pKF = 0 then Inl NullPointer else EraseConnection s' pKF this)
               (map fst (mConnectedKeyFrameWeights (kfs s this))) s of
        Inl e \<Rightarrow> Inl e
      | Inr s1 \<Rightarrow>
          Inr (upd_kf (fold (\<lambda>pMP s'. if pMP \<noteq> 0 then MapPoint_EraseObservation s' pMP this else s')
                         (mvpMapPoints (kfs s1 this)) s1) this
                 (\<lambda>k. k\<lparr> mConnectedKeyFrameWeights := [], mvpOrderedConnectedKeyFrames := [] \<rparr>)))"

text \<open>The children that the while loop left: each is given the parent of this keyframe.\<close>

definition SetBadFlag_orphans :: "world \<Rightarrow> kfptr \<Rightarrow> error + world" where
  "SetBadFlag_orphans s4 this =
     foldE (\<lambda>s' pKF. if pKF = 0 then Inl NullPointer
                      else ChangeParent s' pKF (mpParent (kfs s' this)))
       (mspChildrens (kfs s4 this)) s4"

text \<open>The end: the parent drops this child, the pose relative to the parent is cached,
  the bad flag is set, and the map and the database are told.\<close>

definition SetBadFlag_finish :: "world \<Rightarrow> kfptr \<Rightarrow> world" where
  "SetBadFlag_finish s5 this =
     (let s6 = (if mpParent (kfs s5 this) \<noteq> 0 then
                  upd_kf (EraseChild s5 (mpParent (kfs s5 this)) this) this
                    (\<lambda>k. k\<lparr> mTcp := SE3_mul (mTcw k) (mTwc (kfs s5 (mpParent (kfs s5 this)))) \<rparr>)
                else s5);
          s7 = upd_kf s6 this (\<lambda>k. k\<lparr> mbBad := True \<rparr>)
      in KeyFrameDatabase_erase (Map_EraseKeyFrame s7 (mpMap (kfs s7 this)) this) this)"

definition SetBadFlag_delete :: "world \<Rightarrow> kfptr \<Rightarrow> error + world" where
  "SetBadFlag_delete s this =
     (case SetBadFlag_detach s this of
        Inl e \<Rightarrow> Inl e
      | Inr s3 \<Rightarrow>
          (case reparent_loop s3 this
                  (if mpParent (kfs s3 this) \<noteq> 0
                   then stdset_insert (mpParent (kfs s3 this)) [] else []) of
             Inl e \<Rightarrow> Inl e
           | Inr (s4, sParentCandidates) \<Rightarrow>
               (case SetBadFlag_orphans s4 this of
                  Inl e \<Rightarrow> Inl e
                | Inr s5 \<Rightarrow> Inr (SetBadFlag_finish s5 this))))"

definition SetBadFlag :: "world \<Rightarrow> kfptr \<Rightarrow> error + world" where
  "SetBadFlag s this =
     (if mpMap (kfs s this) = 0 then Inl NullPointer
      else if mnId (kfs s this) = mnInitKFid (maps s (mpMap (kfs s this))) then Inr s
      else if mbNotErase (kfs s this) then Inr (upd_kf s this (\<lambda>k. k\<lparr> mbToBeErased := True \<rparr>))
      else SetBadFlag_delete s this)"

definition SetNotErase :: "world \<Rightarrow> kfptr \<Rightarrow> world" where
  "SetNotErase s this = upd_kf s this (\<lambda>k. k\<lparr> mbNotErase := True \<rparr>)"

definition AddLoopEdge :: "world \<Rightarrow> kfptr \<Rightarrow> kfptr \<Rightarrow> world" where
  "AddLoopEdge s this pKF =
     upd_kf s this (\<lambda>k. k\<lparr> mbNotErase := True, mspLoopEdges := stdset_insert pKF (mspLoopEdges k) \<rparr>)"

definition AddMergeEdge :: "world \<Rightarrow> kfptr \<Rightarrow> kfptr \<Rightarrow> world" where
  "AddMergeEdge s this pKF =
     upd_kf s this (\<lambda>k. k\<lparr> mbNotErase := True, mspMergeEdges := stdset_insert pKF (mspMergeEdges k) \<rparr>)"

definition SetErase :: "world \<Rightarrow> kfptr \<Rightarrow> error + world" where
  "SetErase s this =
     (let s1 = (if mspLoopEdges (kfs s this) = []
                then upd_kf s this (\<lambda>k. k\<lparr> mbNotErase := False \<rparr>) else s)
      in if mbToBeErased (kfs s1 this) then SetBadFlag s1 this else Inr s1)"

subsection \<open>Save and restore: PreSave and PostLoad\<close>

text \<open>SetPose, on the members of the keyframe and on the world.\<close>

definition SetPose_members :: "SE3 \<Rightarrow> KeyFrame \<Rightarrow> KeyFrame" where
  "SetPose_members Tcw k =
     k\<lparr> mTcw := Tcw, mRcw := rotationMatrix Tcw,
        mTwc := SE3_inverse Tcw,
        mRwc := rotationMatrix (SE3_inverse Tcw) \<rparr>"

definition SetPose :: "world \<Rightarrow> kfptr \<Rightarrow> SE3 \<Rightarrow> world" where
  "SetPose s this Tcw = upd_kf s this (SetPose_members Tcw)"

text \<open>The ids, in iteration order, of the keyframes of a set that are in \<open>spKF\<close>.\<close>

definition backup_ids :: "world \<Rightarrow> kfptr list \<Rightarrow> kfptr list \<Rightarrow> error + nat list" where
  "backup_ids s spKF ps =
     foldE (\<lambda>ids pKFi. if pKFi \<in> set spKF
                         then (if pKFi = 0 then Inl NullPointer else Inr (ids @ [mnId (kfs s pKFi)]))
                         else Inr ids) ps []"

definition backup_weights :: "world \<Rightarrow> kfptr list \<Rightarrow> (kfptr \<times> int) list \<Rightarrow> error + (nat \<times> int) list" where
  "backup_weights s spKF m =
     foldE (\<lambda>b (pKFi, w). if pKFi \<in> set spKF
                            then (if pKFi = 0 then Inl NullPointer
                                  else Inr (stdmap_set (mnId (kfs s pKFi)) w b))
                            else Inr b) m []"

text \<open>The id of a pointer that is not null and is in the saved set, \<open>-1\<close> otherwise.\<close>

definition backup_id :: "kfptr list \<Rightarrow> (nat \<Rightarrow> nat) \<Rightarrow> nat \<Rightarrow> int" where
  "backup_id sp idOf p = (if p \<noteq> 0 \<and> p \<in> set sp then int (idOf p) else - 1)"

text \<open>PreSave; the copy of the IMU preintegration is left out.\<close>

definition PreSave :: "world \<Rightarrow> kfptr \<Rightarrow> kfptr list \<Rightarrow> mpptr list \<Rightarrow> camptr list \<Rightarrow> error + world" where
  "PreSave s this spKF spMP spCam =
     (let k = kfs s this;
          vMP = map (\<lambda>i. backup_id spMP (\<lambda>p. mnId_mp (mps s p)) (mvpMapPoints k ! i)) [0 ..< nat (N k)]
      in case backup_weights s spKF (mConnectedKeyFrameWeights k) of
           Inl e \<Rightarrow> Inl e
         | Inr bw \<Rightarrow>
           (case backup_ids s spKF (mspChildrens k) of
              Inl e \<Rightarrow> Inl e
            | Inr bc \<Rightarrow>
              (case backup_ids s spKF (mspLoopEdges k) of
                 Inl e \<Rightarrow> Inl e
               | Inr bl \<Rightarrow>
                 (case backup_ids s spKF (mspMergeEdges k) of
                    Inl e \<Rightarrow> Inl e
                  | Inr bm \<Rightarrow>
                      Inr (upd_kf s this (\<lambda>k. k\<lparr>
                        mvBackupMapPointsId := vMP,
                        mBackupConnectedKeyFrameIdWeights := bw,
                        mBackupParentId := backup_id spKF (\<lambda>p. mnId (kfs s p)) (mpParent k),
                        mvBackupChildrensId := bc,
                        mvBackupLoopEdgesId := bl,
                        mvBackupMergeEdgesId := bm,
                        mnBackupIdCamera := backup_id spCam (camIds s) (mpCamera k),
                        mnBackupIdCamera2 := backup_id spCam (camIds s) (mpCamera2 k),
                        mBackupPrevKFId := backup_id spKF (\<lambda>p. mnId (kfs s p)) (mPrevKF k),
                        mBackupNextKFId := backup_id spKF (\<lambda>p. mnId (kfs s p)) (mNextKF k) \<rparr>))))))"

text \<open>
  PostLoad. The three dictionaries are association lists from ids to pointers; a
  lookup of an absent id gives the null pointer, as \<open>operator[]\<close> does (the entry it
  adds to the caller's dictionary is not modelled). The stereo extrinsics and the IMU
  preintegration are left out. Every assignment before the final call of
  UpdateBestCovisibles is to a member of this keyframe, from the backup members
  (which are cleared last): \<open>PostLoad_restore\<close> is the keyframe after them. A member
  that the source assigns under a condition keeps its value when the condition fails.
\<close>

definition PostLoad_restore ::
  "(nat \<times> kfptr) list \<Rightarrow> (nat \<times> mpptr) list \<Rightarrow> (nat \<times> camptr) list \<Rightarrow> KeyFrame \<Rightarrow> KeyFrame" where
  "PostLoad_restore mpKFid mpMPid mpCamId k =
     (SetPose_members (mTcw k) k)\<lparr>
        mvpMapPoints :=
          map (\<lambda>i. if mvBackupMapPointsId k ! i \<noteq> - 1
                    then stdmap_ptr mpMPid (nat (mvBackupMapPointsId k ! i)) else 0)
              [0 ..< nat (N k)],
        mConnectedKeyFrameWeights :=
          fold (\<lambda>(id, w) m. stdmap_set (stdmap_ptr mpKFid id) w m)
               (mBackupConnectedKeyFrameIdWeights k) [],
        mpParent :=
          (if mBackupParentId k \<ge> 0 then stdmap_ptr mpKFid (nat (mBackupParentId k))
           else mpParent k),
        mspChildrens :=
          fold (\<lambda>id cs. stdset_insert (stdmap_ptr mpKFid id) cs) (mvBackupChildrensId k) [],
        mspLoopEdges :=
          fold (\<lambda>id cs. stdset_insert (stdmap_ptr mpKFid id) cs) (mvBackupLoopEdgesId k) [],
        mspMergeEdges :=
          fold (\<lambda>id cs. stdset_insert (stdmap_ptr mpKFid id) cs) (mvBackupMergeEdgesId k) [],
        mpCamera :=
          (if mnBackupIdCamera k \<ge> 0 then stdmap_ptr mpCamId (nat (mnBackupIdCamera k))
           else mpCamera k),
        mpCamera2 :=
          (if mnBackupIdCamera2 k \<ge> 0 then stdmap_ptr mpCamId (nat (mnBackupIdCamera2 k))
           else mpCamera2 k),
        mPrevKF :=
          (if mBackupPrevKFId k \<noteq> - 1 then stdmap_ptr mpKFid (nat (mBackupPrevKFId k))
           else mPrevKF k),
        mNextKF :=
          (if mBackupNextKFId k \<noteq> - 1 then stdmap_ptr mpKFid (nat (mBackupNextKFId k))
           else mNextKF k),
        mvBackupMapPointsId := [],
        mBackupConnectedKeyFrameIdWeights := [],
        mvBackupChildrensId := [],
        mvBackupLoopEdgesId := [] \<rparr>"

definition PostLoad ::
  "world \<Rightarrow> kfptr \<Rightarrow> (nat \<times> kfptr) list \<Rightarrow> (nat \<times> mpptr) list \<Rightarrow> (nat \<times> camptr) list \<Rightarrow> error + world" where
  "PostLoad s this mpKFid mpMPid mpCamId =
     UpdateBestCovisibles (upd_kf s this (PostLoad_restore mpKFid mpMPid mpCamId)) this"

subsection \<open>Projection of a landmark: ProjectPointDistort and ProjectPointUnDistort\<close>

text \<open>
  The quotient \<open>1.0f / PcZ\<close> is taken with no guard against zero, so the values that
  depend on it are IEEE values: a finite number, an infinity or NaN. Rounding and
  overflow are not modelled (a finite value is a real number and the arithmetic on
  finite values is exact) and a zero is the positive zero. Comparisons with NaN are
  false. The model therefore agrees with the code on the special values (division by a
  zero depth, zero times infinity, comparisons with NaN); within rounding distance of
  an image bound the comparisons of the code can differ from the exact ones.
\<close>

datatype fval = Fin real | PInf | NInf | NaN

fun fneg :: "fval \<Rightarrow> fval" where
  "fneg (Fin a) = Fin (- a)"
| "fneg PInf = NInf"
| "fneg NInf = PInf"
| "fneg NaN = NaN"

fun fadd :: "fval \<Rightarrow> fval \<Rightarrow> fval" where
  "fadd (Fin a) (Fin b) = Fin (a + b)"
| "fadd NaN y = NaN"
| "fadd x NaN = NaN"
| "fadd PInf NInf = NaN"
| "fadd NInf PInf = NaN"
| "fadd PInf y = PInf"
| "fadd NInf y = NInf"
| "fadd (Fin a) y = y"

definition fsub :: "fval \<Rightarrow> fval \<Rightarrow> fval" where
  "fsub x y = fadd x (fneg y)"

text \<open>The product of an infinity and a finite number, by the sign of the number.\<close>

definition inf_times :: "fval \<Rightarrow> real \<Rightarrow> fval" where
  "inf_times i a = (if a = 0 then NaN else if a > 0 then i else fneg i)"

fun fmul :: "fval \<Rightarrow> fval \<Rightarrow> fval" where
  "fmul (Fin a) (Fin b) = Fin (a * b)"
| "fmul NaN y = NaN"
| "fmul x NaN = NaN"
| "fmul (Fin a) y = inf_times y a"
| "fmul x (Fin b) = inf_times x b"
| "fmul PInf y = y"
| "fmul NInf y = fneg y"

definition fdiv :: "real \<Rightarrow> real \<Rightarrow> fval" where
  "fdiv a b = (if b \<noteq> 0 then Fin (a / b)
               else if a = 0 then NaN else if a > 0 then PInf else NInf)"

fun flt :: "fval \<Rightarrow> fval \<Rightarrow> bool" where
  "flt (Fin a) (Fin b) = (a < b)"
| "flt NaN y = False"
| "flt x NaN = False"
| "flt NInf NInf = False"
| "flt NInf y = True"
| "flt x NInf = False"
| "flt PInf y = False"
| "flt (Fin a) PInf = True"

definition fgt :: "fval \<Rightarrow> fval \<Rightarrow> bool" where
  "fgt x y = flt y x"

text \<open>
  Both functions return the boolean together with the three reference arguments
  \<open>kp\<close>, \<open>u\<close>, \<open>v\<close> as they stand at the return. Neither assigns a member of the
  keyframe, so there is no keyframe in the result.
\<close>

definition ProjectPointUnDistort ::
  "KeyFrame \<Rightarrow> MapPoint \<Rightarrow> fval \<times> fval \<Rightarrow> fval \<Rightarrow> fval \<Rightarrow> bool \<times> (fval \<times> fval) \<times> fval \<times> fval" where
  "ProjectPointUnDistort this pMP kp u v =
     (let P = mWorldPos pMP;
          Pc = vec_add (mat_vec (mRcw this) P) (translation (mTcw this));
          PcX = vx Pc; PcY = vy Pc; PcZ = vz Pc
      in if PcZ < 0 then (False, kp, u, v)
         else
           let invz = fdiv 1 PcZ;
               u1 = fadd (fmul (Fin (fx this * PcX)) invz) (Fin (cx this));
               v1 = fadd (fmul (Fin (fy this * PcY)) invz) (Fin (cy this))
           in if flt u1 (Fin (mnMinX this)) \<or> fgt u1 (Fin (mnMaxX this)) then (False, kp, u1, v1)
              else if flt v1 (Fin (mnMinY this)) \<or> fgt v1 (Fin (mnMaxY this)) then (False, kp, u1, v1)
              else (True, (u1, v1), u1, v1))"

definition ProjectPointDistort ::
  "KeyFrame \<Rightarrow> MapPoint \<Rightarrow> fval \<times> fval \<Rightarrow> fval \<Rightarrow> fval \<Rightarrow> bool \<times> (fval \<times> fval) \<times> fval \<times> fval" where
  "ProjectPointDistort this pMP kp u v =
     (let P = mWorldPos pMP;
          Pc = vec_add (mat_vec (mRcw this) P) (translation (mTcw this));
          PcX = vx Pc; PcY = vy Pc; PcZ = vz Pc
      in if PcZ < 0 then (False, kp, u, v)
         else
           let invz = fdiv 1 PcZ;
               u1 = fadd (fmul (Fin (fx this * PcX)) invz) (Fin (cx this));
               v1 = fadd (fmul (Fin (fy this * PcY)) invz) (Fin (cy this))
           in if flt u1 (Fin (mnMinX this)) \<or> fgt u1 (Fin (mnMaxX this)) then (False, kp, u1, v1)
              else if flt v1 (Fin (mnMinY this)) \<or> fgt v1 (Fin (mnMaxY this)) then (False, kp, u1, v1)
              else
                let x = fmul (fsub u1 (Fin (cx this))) (Fin (invfx this));
                    y = fmul (fsub v1 (Fin (cy this))) (Fin (invfy this));
                    r2 = fadd (fmul x x) (fmul y y);
                    k1 = Fin (mDistCoef this ! 0);
                    k2 = Fin (mDistCoef this ! 1);
                    p1 = Fin (mDistCoef this ! 2);
                    p2 = Fin (mDistCoef this ! 3);
                    k3 = (if length (mDistCoef this) = 5 then Fin (mDistCoef this ! 4) else Fin 0);
                    radial = fadd (fadd (fadd (Fin 1) (fmul k1 r2)) (fmul (fmul k2 r2) r2))
                                  (fmul (fmul (fmul k3 r2) r2) r2);
                    x_distort0 = fmul x radial;
                    y_distort0 = fmul y radial;
                    x_distort = fadd x_distort0
                                  (fadd (fmul (fmul (fmul (Fin 2) p1) x) y)
                                        (fmul p2 (fadd r2 (fmul (fmul (Fin 2) x) x))));
                    y_distort = fadd y_distort0
                                  (fadd (fmul p1 (fadd r2 (fmul (fmul (Fin 2) y) y)))
                                        (fmul (fmul (fmul (Fin 2) p2) x) y));
                    u_distort = fadd (fmul x_distort (Fin (fx this))) (Fin (cx this));
                    v_distort = fadd (fmul y_distort (Fin (fy this))) (Fin (cy this))
                in (True, (u_distort, v_distort), u_distort, v_distort))"

subsection \<open>The invariant of the cached covisibility ordering\<close>

text \<open>The two ordered vectors of a keyframe have the same length and the weights do
  not increase.\<close>

definition ordered_inv :: "KeyFrame \<Rightarrow> bool" where
  "ordered_inv k = (length (mvpOrderedConnectedKeyFrames k) = length (mvOrderedWeights k)
                    \<and> sorted_wrt (\<lambda>a b. a \<ge> b) (mvOrderedWeights k))"

definition world_ordered_inv :: "world \<Rightarrow> bool" where
  "world_ordered_inv s = (\<forall>p. ordered_inv (kfs s p))"

subsection \<open>Concrete inputs\<close>

text \<open>A rotation about the z axis by a small angle, with rational entries
  (cosine \<open>(1 - t * t) / (1 + t * t)\<close> and sine \<open>2 * t / (1 + t * t)\<close> for \<open>t = 1 / 1000000\<close>).\<close>

definition R_small :: mat3 where
  "R_small = Mat3 (999999999999 / 1000000000001) (- (2000000 / 1000000000001)) 0
                  (2000000 / 1000000000001) (999999999999 / 1000000000001) 0
                  0 0 1"

text \<open>A matrix near the identity whose diagonal has drifted above one, as a product
  of rounded rotations can: the trace exceeds 3 and the computed cosine exceeds 1.\<close>

definition R_drift :: mat3 where
  "R_drift = Mat3 (100001 / 100000) (- (1 / 1000)) 0
                  (1 / 1000) (100001 / 100000) 0
                  0 0 1"

text \<open>A singular value decomposition of a diagonal matrix with positive entries has
  both unitary factors equal to the identity.\<close>

definition svd_of_diagonal :: "mat3 \<Rightarrow> mat3 \<times> mat3" where
  "svd_of_diagonal M = (mat_identity, mat_identity)"

text \<open>A pose whose body rotation is twice the identity, two updates after the last
  normalisation; and one whose incremental rotation is a quarter turn about the x
  axis, four updates after the last normalisation.\<close>

definition pose_scaled :: ImuCamPose where
  "pose_scaled = \<lparr> twb = vec_zero, Rwb = Mat3 2 0 0  0 2 0  0 0 2,
     Rcw = [mat_identity], tcw = [vec_zero], Rcb = [mat_identity], tcb = [vec_zero],
     Rbc = [mat_identity], tbc = [vec_zero], pCamera = [1], bf = 0, its = 2,
     Rwb0 = Mat3 2 0 0  0 2 0  0 0 2, DR = mat_identity \<rparr>"

definition pose_quarter_turn :: ImuCamPose where
  "pose_quarter_turn = \<lparr> twb = vec_zero, Rwb = Mat3 1 0 0  0 0 (- 1)  0 1 0,
     Rcw = [mat_identity], tcw = [vec_zero], Rcb = [mat_identity], tcb = [vec_zero],
     Rbc = [mat_identity], tbc = [vec_zero], pCamera = [1], bf = 0, its = 4,
     Rwb0 = mat_identity, DR = Mat3 1 0 0  0 0 (- 1)  0 1 0 \<rparr>"

text \<open>A keyframe of map 1 with the given id, parent, children, weight map and ordered
  vectors.\<close>

definition kf_node ::
  "nat \<Rightarrow> kfptr \<Rightarrow> kfptr list \<Rightarrow> (kfptr \<times> int) list \<Rightarrow> kfptr list \<Rightarrow> int list \<Rightarrow> KeyFrame" where
  "kf_node i parent children weights ordered ws =
     KeyFrame_default\<lparr> mnId := i, mpMap := 1, mbFirstConnection := False,
       mpParent := parent, mspChildrens := children,
       mConnectedKeyFrameWeights := weights,
       mvpOrderedConnectedKeyFrames := ordered, mvOrderedWeights := ws \<rparr>"

definition mp_none :: MapPoint where
  "mp_none = \<lparr> mnId_mp = 0, mbBad_mp = False, mObservations = [], mWorldPos = vec_zero \<rparr>"

text \<open>
  The tree of the spec's culling scenario. Keyframe 1 (id 0) is the initial keyframe
  of the map, keyframe 2 is P, keyframe 3 is K3 with the children K4 and K5
  (keyframes 4 and 5). K4 shares weight 10 with P, K5 shares weight 8 with K4 and
  nothing with P.
\<close>

definition w_tree :: world where
  "w_tree = \<lparr>
     kfs = (\<lambda>_. KeyFrame_default)
       (1 := kf_node 0 0 [2] [] [] [],
        2 := kf_node 1 1 [3] [(3, 20), (4, 10)] [3, 4] [20, 10],
        3 := kf_node 2 2 [4, 5] [(2, 20), (4, 30), (5, 25)] [4, 5, 2] [30, 25, 20],
        4 := kf_node 3 3 [] [(2, 10), (3, 30), (5, 8)] [3, 2, 5] [30, 10, 8],
        5 := kf_node 4 3 [] [(3, 25), (4, 8)] [3, 4] [25, 8]),
     mps = (\<lambda>_. mp_none),
     maps = (\<lambda>_. \<lparr> mnInitKFid = 0, mspKeyFrames = [1, 2, 3, 4, 5] \<rparr>),
     camIds = (\<lambda>_. 0),
     kfdb = [1, 2, 3, 4, 5] \<rparr>"

text \<open>The same tree with the not-erase guard set on keyframe 5 (SetNotErase), and with
  a loop edge from keyframe 5 to keyframe 4 (AddLoopEdge).\<close>

definition w_guard :: world where
  "w_guard = SetNotErase w_tree 5"

definition w_loop :: world where
  "w_loop = AddLoopEdge w_tree 5 4"

text \<open>
  Three keyframes of one map and twenty landmarks. Keyframe 2 holds all twenty in
  its slots; keyframe 1 (the initial keyframe) observes all of them, keyframe 3
  observes the first two.
\<close>

definition w_cov :: world where
  "w_cov = \<lparr>
     kfs = (\<lambda>_. KeyFrame_default)
       (1 := (kf_node 0 0 [3] [] [] []),
        2 := (kf_node 1 0 [] [] [] [])\<lparr> mbFirstConnection := True, mvpMapPoints := [1 ..< 21] \<rparr>,
        3 := (kf_node 2 1 [] [] [] [])),
     mps = (\<lambda>p. \<lparr> mnId_mp = p, mbBad_mp = False,
                   mObservations = (if p = 0 \<or> p > 20 then []
                                    else if p \<le> 2 then [(1, (0, - 1)), (2, (0, - 1)), (3, (0, - 1))]
                                    else [(1, (0, - 1)), (2, (0, - 1))]),
                   mWorldPos = vec_zero \<rparr>),
     maps = (\<lambda>_. \<lparr> mnInitKFid = 0, mspKeyFrames = [1, 2, 3] \<rparr>),
     camIds = (\<lambda>_. 0),
     kfdb = [1, 2, 3] \<rparr>"

text \<open>A calibrated keyframe at the identity pose and a landmark at its camera centre.\<close>

definition kf_cam :: KeyFrame where
  "kf_cam = KeyFrame_default\<lparr> fx := 500, fy := 500, cx := 320, cy := 240,
     invfx := 1 / 500, invfy := 1 / 500,
     mnMinX := 0, mnMinY := 0, mnMaxX := 640, mnMaxY := 480, mDistCoef := [0, 0, 0, 0] \<rparr>"

definition mp_at_centre :: MapPoint where
  "mp_at_centre = mp_none\<lparr> mWorldPos := Vec3 0 0 0 \<rparr>"

text \<open>The state that store_connections builds before it looks at the parent.\<close>

definition stored :: "world \<Rightarrow> kfptr \<Rightarrow> (kfptr \<times> int) list \<Rightarrow> (int \<times> kfptr) list \<Rightarrow> world" where
  "stored s this KFcounter vPairs =
     upd_kf s this (\<lambda>k. k\<lparr> mConnectedKeyFrameWeights := KFcounter,
                mvpOrderedConnectedKeyFrames := rev (map snd (sort vPairs)),
                mvOrderedWeights := rev (map fst (sort vPairs)) \<rparr>)"

text \<open>The tallies: keys in strictly increasing order, none null, none with the id of
  this keyframe, every count at least one.\<close>

definition tally_ok :: "world \<Rightarrow> kfptr \<Rightarrow> (kfptr \<times> int) list \<Rightarrow> bool" where
  "tally_ok s this m = (sorted_wrt (<) (map fst m) \<and>
     (\<forall>e \<in> set m. fst e \<noteq> 0 \<and> snd e \<ge> 1 \<and> mnId (kfs s (fst e)) \<noteq> mnId (kfs s this)))"

text \<open>Projections of a keyframe that do not look at the covisibility members, at the
  tree members, or at the two members the end of SetBadFlag writes.\<close>

definition keeps_cov :: "(KeyFrame \<Rightarrow> 'a) \<Rightarrow> bool" where
  "keeps_cov g = (\<forall>k m lk lw. g (k\<lparr> mConnectedKeyFrameWeights := m \<rparr>) = g k
                    \<and> g (k\<lparr> mvpOrderedConnectedKeyFrames := lk \<rparr>) = g k
                    \<and> g (k\<lparr> mvOrderedWeights := lw \<rparr>) = g k)"

definition keeps_tree :: "(KeyFrame \<Rightarrow> 'a) \<Rightarrow> bool" where
  "keeps_tree g = (\<forall>k par ch b. g (k\<lparr> mpParent := par \<rparr>) = g k
                     \<and> g (k\<lparr> mspChildrens := ch \<rparr>) = g k
                     \<and> g (k\<lparr> mbFirstConnection := b \<rparr>) = g k)"

definition keeps_end :: "(KeyFrame \<Rightarrow> 'a) \<Rightarrow> bool" where
  "keeps_end g = (\<forall>k t b. g (k\<lparr> mTcp := t \<rparr>) = g k \<and> g (k\<lparr> mbBad := b \<rparr>) = g k)"

text \<open>One operation of the keyframe graph, as a step of the world.\<close>

inductive graph_step :: "world \<Rightarrow> world \<Rightarrow> bool" where
  step_AddConnection: "AddConnection s this pKF w = Inr s' \<Longrightarrow> graph_step s s'"
| step_EraseConnection: "EraseConnection s this pKF = Inr s' \<Longrightarrow> graph_step s s'"
| step_UpdateBestCovisibles: "UpdateBestCovisibles s this = Inr s' \<Longrightarrow> graph_step s s'"
| step_UpdateConnections: "UpdateConnections s this upParent = Inr s' \<Longrightarrow> graph_step s s'"
| step_AddChild: "graph_step s (AddChild s this pKF)"
| step_EraseChild: "graph_step s (EraseChild s this pKF)"
| step_ChangeParent: "ChangeParent s this pKF = Inr s' \<Longrightarrow> graph_step s s'"
| step_SetNotErase: "graph_step s (SetNotErase s this)"
| step_AddLoopEdge: "graph_step s (AddLoopEdge s this pKF)"
| step_AddMergeEdge: "graph_step s (AddMergeEdge s this pKF)"
| step_SetBadFlag: "SetBadFlag s this = Inr s' \<Longrightarrow> graph_step s s'"
| step_SetErase: "SetErase s this = Inr s' \<Longrightarrow> graph_step s s'"
| step_SetPose: "graph_step s (SetPose s this Tcw)"
| step_PreSave: "PreSave s this spKF spMP spCam = Inr s' \<Longrightarrow> graph_step s s'"
| step_PostLoad: "PostLoad s this mpKFid mpMPid mpCamId = Inr s' \<Longrightarrow> graph_step s s'"

definition w_stale :: world where
  "w_stale = \<lparr>
     kfs = (\<lambda>_. KeyFrame_default)
       (1 := (kf_node 0 0 [2, 3, 4] [] [] []),
        2 := (kf_node 1 1 [] [(3, 20)] [3] [20]),
        3 := (kf_node 2 1 [] [(2, 20)] [2] [20])\<lparr> mvpMapPoints := [0, 0, 21, 22] \<rparr>,
        4 := (kf_node 3 1 [] [] [] [])),
     mps = (\<lambda>p. \<lparr> mnId_mp = p, mbBad_mp = False,
                   mObservations = (if p = 21 \<or> p = 22 then [(3, (0, - 1)), (4, (0, - 1))] else []),
                   mWorldPos = vec_zero \<rparr>),
     maps = (\<lambda>_. \<lparr> mnInitKFid = 0, mspKeyFrames = [1, 2, 3, 4] \<rparr>),
     camIds = (\<lambda>_. 0),
     kfdb = [1, 2, 3, 4] \<rparr>"

text \<open>The state after UpdateConnections on keyframe 3 of \<open>w_stale\<close>.\<close>

definition w_asym :: world where
  "w_asym = w_stale\<lparr> kfs := (\<lambda>_. KeyFrame_default)
       (1 := (kf_node 0 0 [2, 3, 4] [] [] []),
        2 := (kf_node 1 1 [] [(3, 20)] [3] [20]),
        3 := (kf_node 2 1 [] [(4, 2)] [4] [2])\<lparr> mvpMapPoints := [0, 0, 21, 22] \<rparr>,
        4 := (kf_node 3 1 [] [(3, 2)] [3] [2])) \<rparr>"

definition w_culled :: world where
  "w_culled = upd_kf w_tree 5 (\<lambda>k. k\<lparr> mbBad := True \<rparr>)"

text \<open>The backup members that PreSave writes for the graph.\<close>

definition graph_backups :: "KeyFrame \<Rightarrow> (nat \<times> int) list \<times> int \<times> nat list \<times> nat list \<times> nat list" where
  "graph_backups k = (mBackupConnectedKeyFrameIdWeights k, mBackupParentId k,
     mvBackupChildrensId k, mvBackupLoopEdgesId k, mvBackupMergeEdgesId k)"

text \<open>The keyframe as the archive gives it back: the backup members and the plain data
  are kept, every member that holds references is as the default constructor leaves
  it.\<close>

definition reloaded :: "KeyFrame \<Rightarrow> KeyFrame" where
  "reloaded k = k\<lparr> mvpMapPoints := [], mConnectedKeyFrameWeights := [],
     mvpOrderedConnectedKeyFrames := [], mvOrderedWeights := [],
     mpParent := 0, mspChildrens := [], mspLoopEdges := [], mspMergeEdges := [],
     mPrevKF := 0, mNextKF := 0, mpCamera := 0, mpCamera2 := 0 \<rparr>"

text \<open>
  Keyframe 3 of the tree is saved with all five keyframes in the set, and loaded
  again as a new object: \<open>w_archived\<close> holds for keyframe 3 the backup members that
  PreSave wrote and empty graph members; \<open>ids_tree\<close> is the dictionary from the ids
  to the keyframes.
\<close>

definition ids_tree :: "(nat \<times> kfptr) list" where
  "ids_tree = [(0, 1), (1, 2), (2, 3), (3, 4), (4, 5)]"

definition w_saved :: world where
  "w_saved = projr (PreSave w_tree 3 [1, 2, 3, 4, 5] [] [])"

definition w_archived :: world where
  "w_archived = upd_kf w_saved 3 reloaded"

subsection \<open>The cached ordering of one keyframe across the operations\<close>

text \<open>What an operation does to the cached ordering of one keyframe: it rewrites the
  two vectors so that the invariant holds, or it leaves both as they are.\<close>

definition cache_kept :: "KeyFrame \<Rightarrow> KeyFrame \<Rightarrow> bool" where
  "cache_kept k k' = (ordered_inv k' \<or>
     (mvpOrderedConnectedKeyFrames k' = mvpOrderedConnectedKeyFrames k
      \<and> mvOrderedWeights k' = mvOrderedWeights k))"

text \<open>The state of the cache in every world the operations build: the invariant holds,
  or the keyframe has been culled and its keyframe vector is empty (SetBadFlag clears
  the keyframe vector and leaves the weight vector).\<close>

definition cache_inv :: "KeyFrame \<Rightarrow> bool" where
  "cache_inv k = (ordered_inv k \<or> (mbBad k \<and> mvpOrderedConnectedKeyFrames k = []))"

text \<open>The tree after keyframe 5 has been culled.\<close>

definition w_after_cull :: world where
  "w_after_cull = projr (SetBadFlag w_tree 5)"

text \<open>
  The three keyframes of \<open>w_cov\<close> with five landmarks in the slots of keyframe 2:
  keyframe 1 observes all five, keyframe 3 the first one. No tally of keyframe 2
  reaches the threshold.
\<close>

definition w_low :: world where
  "w_low = \<lparr>
     kfs = (\<lambda>_. KeyFrame_default)
       (1 := (kf_node 0 0 [3] [] [] []),
        2 := (kf_node 1 0 [] [] [] [])\<lparr> mbFirstConnection := True, mvpMapPoints := [1 ..< 6] \<rparr>,
        3 := (kf_node 2 1 [] [] [] [])),
     mps = (\<lambda>p. \<lparr> mnId_mp = p, mbBad_mp = False,
                   mObservations = (if p = 0 \<or> p > 5 then []
                                    else if p \<le> 1 then [(1, (0, - 1)), (2, (0, - 1)), (3, (0, - 1))]
                                    else [(1, (0, - 1)), (2, (0, - 1))]),
                   mWorldPos = vec_zero \<rparr>),
     maps = (\<lambda>_. \<lparr> mnInitKFid = 0, mspKeyFrames = [1, 2, 3] \<rparr>),
     camIds = (\<lambda>_. 0),
     kfdb = [1, 2, 3] \<rparr>"

subsection \<open>The greedy reattachment of the spec\<close>





text \<open>What the first part of SetBadFlag does to the weight map and the covisible
  vector of a keyframe: entries are erased, and an empty map with an empty vector
  stays so.\<close>

definition weights_shrunk :: "KeyFrame \<Rightarrow> KeyFrame \<Rightarrow> bool" where
  "weights_shrunk k k' =
     (set (mConnectedKeyFrameWeights k') \<subseteq> set (mConnectedKeyFrameWeights k)
      \<and> (mConnectedKeyFrameWeights k = [] \<and> mvpOrderedConnectedKeyFrames k = []
           \<longrightarrow> mConnectedKeyFrameWeights k' = [] \<and> mvpOrderedConnectedKeyFrames k' = []))"

section \<open>Properties\<close>

subsection \<open>The store\<close>

lemma kfs_upd_kf [simp]: "kfs (upd_kf s p f) q = (if q = p then f (kfs s p) else kfs s q)"
  by (simp add: upd_kf_def)

lemma others_upd_kf [simp]:
  "mps (upd_kf s p f) = mps s" "maps (upd_kf s p f) = maps s"
  "camIds (upd_kf s p f) = camIds s" "kfdb (upd_kf s p f) = kfdb s"
  by (simp_all add: upd_kf_def)

lemma upd_kf_id: "f (kfs s p) = kfs s p \<Longrightarrow> upd_kf s p f = s"
  by (simp add: upd_kf_def)

lemma kfs_erase_notify [simp]:
  "kfs (MapPoint_EraseObservation s pMP pKF) = kfs s"
  "kfs (Map_EraseKeyFrame s pMap pKF) = kfs s"
  "kfs (KeyFrameDatabase_erase s pKF) = kfs s"
  by (simp_all add: MapPoint_EraseObservation_def Map_EraseKeyFrame_def KeyFrameDatabase_erase_def)

lemma maps_erase_observation [simp]:
  "maps (MapPoint_EraseObservation s pMP pKF) = maps s"
  by (simp add: MapPoint_EraseObservation_def)

lemma foldE_preserves:
  assumes "foldE f xs s = Inr s'" and "P s"
    and "\<And>a x b. f a x = Inr b \<Longrightarrow> P a \<Longrightarrow> P b"
  shows "P s'"
  using assms(1,2)
proof (induction xs arbitrary: s)
  case Nil
  then show ?case by simp
next
  case (Cons x xs)
  from Cons.prems(1) obtain s1 where 1: "f s x = Inr s1" and 2: "foldE f xs s1 = Inr s'"
    by (auto split: sum.splits)
  from assms(3) [OF 1 Cons.prems(2)] have "P s1" .
  from Cons.IH [OF 2 this] show ?case .
qed

subsection \<open>The rotation logarithm\<close>

lemma R_small_rot: "is_rotation R_small"
  by (simp add: is_rotation_def R_small_def mat_mul_def transpose3_def mat_identity_def det3_def)

lemma R_small_cos: "logSO3_cos_theta R_small = 999999999999 / 1000000000001"
  by (simp add: logSO3_cos_theta_def trace3_def R_small_def)

lemma R_small_sin: "sin (arccos (logSO3_cos_theta R_small)) = 2000000 / 1000000000001"
proof -
  have "sin (arccos (999999999999 / 1000000000001 :: real))
        = sqrt (1 - (999999999999 / 1000000000001)\<^sup>2)"
    by (rule sin_arccos) simp_all
  also have "(1 :: real) - (999999999999 / 1000000000001)\<^sup>2 = (2000000 / 1000000000001)\<^sup>2"
    by (simp add: power2_eq_square)
  also have "sqrt ((2000000 / 1000000000001 :: real)\<^sup>2) = 2000000 / 1000000000001"
    by simp
  finally show ?thesis by (simp only: R_small_cos)
qed

text \<open>
  C6, as stated, fails. The matrix \<open>R_small\<close> is a rotation, the sine of its recovered
  angle is below the threshold, and logSO3 returns a vector that is not zero: it
  returns \<open>w\<close>, the small-angle approximation, as the comment in the source says.
\<close>

theorem logSO3_small_angle_not_zero:
  "is_rotation R_small \<and>
   \<bar>sin (arccos (logSO3_cos_theta R_small))\<bar> < 1 / 100000 \<and>
   logSO3 R_small \<noteq> vec_zero"
proof -
  have a: "\<bar>sin (arccos (logSO3_cos_theta R_small))\<bar> < 1 / 100000"
    unfolding R_small_sin by simp
  have "\<not> \<bar>logSO3_cos_theta R_small\<bar> > 1"
    unfolding R_small_cos by simp
  with a have b: "logSO3 R_small = logSO3_w R_small"
    by (simp add: logSO3_def Let_def)
  have c: "logSO3_w R_small \<noteq> vec_zero"
    by (simp add: logSO3_w_def R_small_def vec_zero_def)
  show ?thesis using a b c R_small_rot by simp
qed

lemma unit_of_squares:
  fixes a b c :: real
  assumes "a * a + b * b + c * c = 1"
  shows "\<bar>a\<bar> \<le> 1" "\<bar>b\<bar> \<le> 1" "\<bar>c\<bar> \<le> 1"
proof -
  have "a\<^sup>2 \<le> 1" "b\<^sup>2 \<le> 1" "c\<^sup>2 \<le> 1"
    using assms zero_le_square [of a] zero_le_square [of b] zero_le_square [of c]
    unfolding power2_eq_square by linarith+
  then show "\<bar>a\<bar> \<le> 1" "\<bar>b\<bar> \<le> 1" "\<bar>c\<bar> \<le> 1"
    using abs_square_le_1 by blast+
qed

text \<open>The rows of a rotation matrix have norm one, so its entries lie in \<open>[-1, 1]\<close>.\<close>

lemma rotation_entries_in_unit:
  assumes "is_rotation R"
  shows "entries_in_unit R"
proof (cases R)
  case (Mat3 a b c d e f g h i)
  with assms have r: "a * a + b * b + c * c = 1" "d * d + e * e + f * f = 1" "g * g + h * h + i * i = 1"
    by (simp_all add: is_rotation_def mat_mul_def transpose3_def mat_identity_def)
  from unit_of_squares [OF r(1)] unit_of_squares [OF r(2)] unit_of_squares [OF r(3)] Mat3
  show ?thesis by (simp add: entries_in_unit_def)
qed

lemma logSO3_w_bounded:
  assumes "entries_in_unit R"
  shows "\<bar>vx (logSO3_w R)\<bar> \<le> 1 \<and> \<bar>vy (logSO3_w R)\<bar> \<le> 1 \<and> \<bar>vz (logSO3_w R)\<bar> \<le> 1"
proof -
  have h: "\<bar>a - b\<bar> \<le> 2" if "\<bar>a\<bar> \<le> 1" "\<bar>b\<bar> \<le> 1" for a b :: real
    using that by linarith
  from assms show ?thesis
    by (simp add: entries_in_unit_def logSO3_w_def h)
qed

lemma R_drift_cos: "logSO3_cos_theta R_drift = 100001 / 100000"
  by (simp add: logSO3_cos_theta_def trace3_def R_drift_def)

lemma R_small_unit: "entries_in_unit R_small"
  by (simp add: entries_in_unit_def R_small_def)

text \<open>
  C6, amended: whenever the computed cosine lies outside \<open>[-1, 1]\<close>, and whenever the
  sine of the recovered angle is below \<open>1e-5\<close> in absolute value, logSO3 returns the
  vector \<open>w\<close> (half the antisymmetric part of the matrix) unscaled: neither the
  arccosine outside its domain nor the quotient by the small sine is part of the
  result. That vector is zero exactly when the off-diagonal part of the matrix is
  symmetric. When the entries of the matrix lie in \<open>[-1, 1]\<close>, as those of every
  rotation matrix do (\<open>rotation_entries_in_unit\<close>), each component of the result lies
  in \<open>[-1, 1]\<close>.
\<close>

theorem logSO3_degenerate_returns_w:
  assumes "\<bar>logSO3_cos_theta R\<bar> > 1 \<or> \<bar>sin (arccos (logSO3_cos_theta R))\<bar> < 1 / 100000"
  shows "logSO3 R = logSO3_w R \<and>
         (logSO3 R = vec_zero \<longleftrightarrow> m21 R = m12 R \<and> m02 R = m20 R \<and> m10 R = m01 R) \<and>
         (entries_in_unit R \<longrightarrow>
            \<bar>vx (logSO3 R)\<bar> \<le> 1 \<and> \<bar>vy (logSO3 R)\<bar> \<le> 1 \<and> \<bar>vz (logSO3 R)\<bar> \<le> 1)"
proof -
  have a: "logSO3 R = logSO3_w R"
    using assms by (auto simp add: logSO3_def Let_def)
  have b: "logSO3_w R = vec_zero \<longleftrightarrow> m21 R = m12 R \<and> m02 R = m20 R \<and> m10 R = m01 R"
    by (auto simp add: logSO3_w_def vec_zero_def)
  show ?thesis using a b logSO3_w_bounded [of R] by simp
qed

text \<open>Both degenerate cases at a matrix whose \<open>w\<close> is not zero: the drifted matrix,
  whose computed cosine exceeds one, and the small rotation, whose sine is below the
  threshold.\<close>

theorem logSO3_degenerate_returns_w_witness:
  "\<bar>logSO3_cos_theta R_drift\<bar> > 1 \<and>
   logSO3 R_drift = Vec3 0 0 (1 / 1000) \<and>
   logSO3 R_drift \<noteq> vec_zero \<and>
   is_rotation R_small \<and> entries_in_unit R_small \<and>
   \<not> \<bar>logSO3_cos_theta R_small\<bar> > 1 \<and>
   \<bar>sin (arccos (logSO3_cos_theta R_small))\<bar> < 1 / 100000 \<and>
   logSO3 R_small = Vec3 0 0 (2000000 / 1000000000001) \<and>
   \<bar>vz (logSO3 R_small)\<bar> \<le> 1"
proof -
  have d: "\<bar>logSO3_cos_theta R_drift\<bar> > 1"
    unfolding R_drift_cos by simp
  have dw: "logSO3_w R_drift = Vec3 0 0 (1 / 1000)"
    by (simp add: logSO3_w_def R_drift_def)
  from logSO3_degenerate_returns_w [of R_drift, OF disjI1, OF d] dw
  have d1: "logSO3 R_drift = Vec3 0 0 (1 / 1000)" by simp
  then have d2: "logSO3 R_drift \<noteq> vec_zero" by (simp add: vec_zero_def)
  have c: "\<not> \<bar>logSO3_cos_theta R_small\<bar> > 1"
    unfolding R_small_cos by simp
  have h: "\<bar>sin (arccos (logSO3_cos_theta R_small))\<bar> < 1 / 100000"
    unfolding R_small_sin by simp
  have sw: "logSO3_w R_small = Vec3 0 0 (2000000 / 1000000000001)"
    by (simp add: logSO3_w_def R_small_def)
  note t = logSO3_degenerate_returns_w [of R_small, OF disjI2, OF h]
  from t sw have s1: "logSO3 R_small = Vec3 0 0 (2000000 / 1000000000001)" by simp
  from t R_small_unit have s2: "\<bar>vz (logSO3 R_small)\<bar> \<le> 1" by blast
  from d d1 d2 R_small_rot R_small_unit c h s1 s2 show ?thesis by blast
qed

subsection \<open>Re-orthonormalisation in the pose updates\<close>

lemma fold_cam_fields:
  "Rwb (fold (\<lambda>i q. q\<lparr> Rcw := f i q, tcw := g i q \<rparr>) js p) = Rwb p \<and>
   DR (fold (\<lambda>i q. q\<lparr> Rcw := f i q, tcw := g i q \<rparr>) js p) = DR p \<and>
   its (fold (\<lambda>i q. q\<lparr> Rcw := f i q, tcw := g i q \<rparr>) js p) = its p"
  by (induction js arbitrary: p) simp_all

lemma update_camera_poses_fields:
  "Rwb (update_camera_poses p) = Rwb p" "DR (update_camera_poses p) = DR p"
  "its (update_camera_poses p) = its p"
  by (simp_all add: update_camera_poses_def Let_def fold_cam_fields)

text \<open>Whatever the decomposition returns, the stored rotations are the products that
  were computed before the call of normalizeRotation.\<close>

lemma Update_keeps_unnormalized_rotation:
  "Rwb (Update svd p (Some u)) = mat_mul (Rwb p) (expSO3 svd (Vec3 (u0 u) (u1 u) (u2 u))) \<and>
   its (Update svd p (Some u)) = (if its p + 1 \<ge> 3 then 0 else its p + 1) \<and>
   DR (UpdateW svd p (Some u)) =
     (let D = mat_mul (expSO3 svd (Vec3 (u0 u) (u1 u) (u2 u))) (DR p)
      in if its p + 1 \<ge> 5 then Mat3 (m00 D) (m01 D) 0  (m10 D) (m11 D) 0  0 0 (m22 D) else D) \<and>
   its (UpdateW svd p (Some u)) = (if its p + 1 \<ge> 5 then 0 else its p + 1)"
  by (simp add: Update_def UpdateW_def Let_def update_camera_poses_fields)

lemma expSO3_zero: "expSO3 svd_of_diagonal (Vec3 0 0 0) = mat_identity"
  by (simp add: expSO3_def Let_def squaredNorm_def normalizeRotation_def svd_of_diagonal_def
      mat_mul_def transpose3_def mat_identity_def)

text \<open>
  C7: the code at the failing inputs. The third Update of a pose whose body rotation
  is \<open>2 I\<close> resets the counter and keeps \<open>2 I\<close>, which is not a rotation, although
  its orthonormalisation is the identity. The fifth UpdateW of a pose whose
  incremental rotation is a quarter turn about the x axis resets the counter and
  keeps the matrix with the four entries zeroed, which is singular.
\<close>

theorem ImuCamPose_Update_keeps_unnormalized:
  "Rwb (Update svd_of_diagonal pose_scaled (Some (Vec6 0 0 0 0 0 0))) = Mat3 2 0 0  0 2 0  0 0 2 \<and>
   its (Update svd_of_diagonal pose_scaled (Some (Vec6 0 0 0 0 0 0))) = 0 \<and>
   normalizeRotation svd_of_diagonal (Mat3 2 0 0  0 2 0  0 0 2) = mat_identity \<and>
   \<not> is_rotation (Rwb (Update svd_of_diagonal pose_scaled (Some (Vec6 0 0 0 0 0 0)))) \<and>
   DR (UpdateW svd_of_diagonal pose_quarter_turn (Some (Vec6 0 0 0 0 0 0))) = Mat3 1 0 0  0 0 0  0 0 0 \<and>
   its (UpdateW svd_of_diagonal pose_quarter_turn (Some (Vec6 0 0 0 0 0 0))) = 0 \<and>
   \<not> is_rotation (DR (UpdateW svd_of_diagonal pose_quarter_turn (Some (Vec6 0 0 0 0 0 0))))"
proof -
  have a: "Rwb (Update svd_of_diagonal pose_scaled (Some (Vec6 0 0 0 0 0 0))) = Mat3 2 0 0  0 2 0  0 0 2"
    by (simp add: Update_def Let_def update_camera_poses_fields expSO3_zero)
       (simp add: pose_scaled_def mat_mul_def mat_identity_def)
  have b: "its (Update svd_of_diagonal pose_scaled (Some (Vec6 0 0 0 0 0 0))) = 0"
    by (simp add: Update_def Let_def update_camera_poses_fields pose_scaled_def)
  have c: "normalizeRotation svd_of_diagonal (Mat3 2 0 0  0 2 0  0 0 2) = mat_identity"
    by (simp add: normalizeRotation_def svd_of_diagonal_def mat_mul_def transpose3_def
        mat_identity_def)
  have d: "\<not> is_rotation (Mat3 2 0 0  0 2 0  0 0 2)"
    by (simp add: is_rotation_def mat_mul_def transpose3_def mat_identity_def)
  have e: "DR (UpdateW svd_of_diagonal pose_quarter_turn (Some (Vec6 0 0 0 0 0 0)))
           = Mat3 1 0 0  0 0 0  0 0 0"
    by (simp add: UpdateW_def Let_def update_camera_poses_fields expSO3_zero)
       (simp add: pose_quarter_turn_def mat_mul_def mat_identity_def)
  have f: "its (UpdateW svd_of_diagonal pose_quarter_turn (Some (Vec6 0 0 0 0 0 0))) = 0"
    by (simp add: UpdateW_def Let_def update_camera_poses_fields pose_quarter_turn_def)
  have g: "\<not> is_rotation (Mat3 1 0 0  0 0 0  0 0 0)"
    by (simp add: is_rotation_def mat_mul_def transpose3_def mat_identity_def)
  show ?thesis using a b c d e f g by simp
qed

subsection \<open>Projection of a landmark\<close>

text \<open>The guard on the depth: a negative depth gives false. (The depth is the exact
  one; a comparison of the projection with a bound can come out differently in the
  code when rounding moves the projection onto the bound, so nothing is stated of
  the four bound tests at a positive depth.)\<close>

lemma ProjectPoint_negative_depth:
  assumes "vz (vec_add (mat_vec (mRcw this) (mWorldPos pMP)) (translation (mTcw this))) < 0"
  shows "ProjectPointUnDistort this pMP kp u v = (False, kp, u, v)"
    and "ProjectPointDistort this pMP kp u v = (False, kp, u, v)"
  using assms by (simp_all add: ProjectPointUnDistort_def ProjectPointDistort_def Let_def)

text \<open>
  C5: the code at the failing input. For a landmark at the camera centre the depth
  is zero, the guard \<open>PcZ < 0\<close> lets it pass, the projection is NaN, no comparison
  with the bounds holds, and both functions return true.
\<close>

theorem ProjectPoint_zero_depth_returns_true:
  "ProjectPointUnDistort kf_cam mp_at_centre (Fin 0, Fin 0) (Fin 0) (Fin 0) = (True, (NaN, NaN), NaN, NaN) \<and>
   ProjectPointDistort kf_cam mp_at_centre (Fin 0, Fin 0) (Fin 0) (Fin 0) = (True, (NaN, NaN), NaN, NaN)"
  by (simp add: ProjectPointUnDistort_def ProjectPointDistort_def Let_def kf_cam_def
      mp_at_centre_def mp_none_def KeyFrame_default_def SE3_identity_def mat_identity_def
      vec_zero_def mat_vec_def vec_add_def fdiv_def fgt_def fsub_def inf_times_def)

subsection \<open>Culling the initial keyframe\<close>

text \<open>
  C9: SetBadFlag on the keyframe whose id is the initial-keyframe id of its map
  returns at once. The result is the state it was given: no keyframe, landmark, map
  or database entry has changed.
\<close>

theorem SetBadFlag_root_is_noop:
  assumes "mpMap (kfs s this) \<noteq> 0"
    and "mnId (kfs s this) = mnInitKFid (maps s (mpMap (kfs s this)))"
  shows "SetBadFlag s this = Inr s"
  using assms by (simp add: SetBadFlag_def)

theorem SetBadFlag_root_is_noop_witness:
  "mpMap (kfs w_tree 1) \<noteq> 0 \<and>
   mnId (kfs w_tree 1) = mnInitKFid (maps w_tree (mpMap (kfs w_tree 1))) \<and>
   SetBadFlag w_tree 1 = Inr w_tree"
proof -
  have h1: "mpMap (kfs w_tree 1) \<noteq> 0" by code_simp
  have h2: "mnId (kfs w_tree 1) = mnInitKFid (maps w_tree (mpMap (kfs w_tree 1)))" by code_simp
  show ?thesis using h1 h2 SetBadFlag_root_is_noop [OF h1 h2] by simp
qed

subsection \<open>Deferred deletion\<close>

lemma SetBadFlag_finish_bad: "mbBad (kfs (SetBadFlag_finish s5 this) this)"
  by (simp add: SetBadFlag_finish_def Let_def)

lemma SetBadFlag_delete_bad:
  assumes "SetBadFlag_delete s this = Inr s'"
  shows "mbBad (kfs s' this)"
proof -
  from assms obtain s5 where "s' = SetBadFlag_finish s5 this"
    unfolding SetBadFlag_delete_def
    by (auto split: sum.splits prod.splits)
  then show ?thesis by (simp add: SetBadFlag_finish_bad)
qed

text \<open>
  C3: for a keyframe that is not the initial one,
  \<^item> SetBadFlag under the guard only sets the to-be-erased flag (the bad flag and the
    graph are as before);
  \<^item> SetErase with no pending request clears the guard exactly when there is no loop
    edge, and changes nothing else;
  \<^item> SetErase with a pending request, a loop edge and the guard leaves the state as
    it is;
  \<^item> SetErase with a pending request and no loop edge clears the guard and runs the
    deletion, after which the keyframe is bad.
\<close>

theorem SetErase_honours_deferred_deletion:
  assumes "mpMap (kfs s this) \<noteq> 0"
    and "mnId (kfs s this) \<noteq> mnInitKFid (maps s (mpMap (kfs s this)))"
  shows "(mbNotErase (kfs s this) \<longrightarrow>
            SetBadFlag s this = Inr (upd_kf s this (\<lambda>k. k\<lparr> mbToBeErased := True \<rparr>)))
       \<and> (\<not> mbToBeErased (kfs s this) \<longrightarrow>
            SetErase s this = Inr (if mspLoopEdges (kfs s this) = []
                                   then upd_kf s this (\<lambda>k. k\<lparr> mbNotErase := False \<rparr>) else s))
       \<and> (mbToBeErased (kfs s this) \<and> mspLoopEdges (kfs s this) \<noteq> [] \<and> mbNotErase (kfs s this) \<longrightarrow>
            SetErase s this = Inr s)
       \<and> (mbToBeErased (kfs s this) \<and> mspLoopEdges (kfs s this) = [] \<longrightarrow>
            SetErase s this = SetBadFlag_delete (upd_kf s this (\<lambda>k. k\<lparr> mbNotErase := False \<rparr>)) this
            \<and> (\<forall>s'. SetErase s this = Inr s' \<longrightarrow> mbBad (kfs s' this)))"
proof (intro conjI impI allI)
  assume "mbNotErase (kfs s this)"
  then show "SetBadFlag s this = Inr (upd_kf s this (\<lambda>k. k\<lparr> mbToBeErased := True \<rparr>))"
    using assms by (simp add: SetBadFlag_def)
next
  assume "\<not> mbToBeErased (kfs s this)"
  then show "SetErase s this = Inr (if mspLoopEdges (kfs s this) = []
                                   then upd_kf s this (\<lambda>k. k\<lparr> mbNotErase := False \<rparr>) else s)"
    by (simp add: SetErase_def Let_def)
next
  assume a: "mbToBeErased (kfs s this) \<and> mspLoopEdges (kfs s this) \<noteq> [] \<and> mbNotErase (kfs s this)"
  then have "upd_kf s this (\<lambda>k. k\<lparr> mbToBeErased := True \<rparr>) = s"
    by (intro upd_kf_id) simp
  then show "SetErase s this = Inr s"
    using a assms by (simp add: SetErase_def Let_def SetBadFlag_def)
next
  assume a: "mbToBeErased (kfs s this) \<and> mspLoopEdges (kfs s this) = []"
  then show e: "SetErase s this
                = SetBadFlag_delete (upd_kf s this (\<lambda>k. k\<lparr> mbNotErase := False \<rparr>)) this"
    using assms by (simp add: SetErase_def Let_def SetBadFlag_def)
  fix s'
  assume "SetErase s this = Inr s'"
  with e show "mbBad (kfs s' this)"
    by (simp add: SetBadFlag_delete_bad)
qed

text \<open>
  The scenario on the tree: keyframe 5 is guarded; the deletion request is deferred;
  SetErase then deletes it. With a loop edge on keyframe 5 the request stays pending
  and SetErase leaves the keyframe alive.
\<close>

theorem SetErase_honours_deferred_deletion_witness:
  "mbNotErase (kfs w_guard 5) \<and> \<not> mbBad (kfs w_guard 5) \<and>
   SetBadFlag w_guard 5 = Inr (upd_kf w_guard 5 (\<lambda>k. k\<lparr> mbToBeErased := True \<rparr>)) \<and>
   \<not> isl (SetErase (upd_kf w_guard 5 (\<lambda>k. k\<lparr> mbToBeErased := True \<rparr>)) 5) \<and>
   mbBad (kfs (projr (SetErase (upd_kf w_guard 5 (\<lambda>k. k\<lparr> mbToBeErased := True \<rparr>)) 5)) 5) \<and>
   SetBadFlag w_loop 5 = Inr (upd_kf w_loop 5 (\<lambda>k. k\<lparr> mbToBeErased := True \<rparr>)) \<and>
   SetErase (upd_kf w_loop 5 (\<lambda>k. k\<lparr> mbToBeErased := True \<rparr>)) 5
     = Inr (upd_kf w_loop 5 (\<lambda>k. k\<lparr> mbToBeErased := True \<rparr>)) \<and>
   \<not> mbBad (kfs (upd_kf w_loop 5 (\<lambda>k. k\<lparr> mbToBeErased := True \<rparr>)) 5)"
proof -
  let ?g = "upd_kf w_guard 5 (\<lambda>k. k\<lparr> mbToBeErased := True \<rparr>)"
  let ?l = "upd_kf w_loop 5 (\<lambda>k. k\<lparr> mbToBeErased := True \<rparr>)"
  have g1: "mpMap (kfs w_guard 5) \<noteq> 0" by code_simp
  have g2: "mnId (kfs w_guard 5) \<noteq> mnInitKFid (maps w_guard (mpMap (kfs w_guard 5)))" by code_simp
  have g3: "mbNotErase (kfs w_guard 5)" by code_simp
  have g4: "\<not> mbBad (kfs w_guard 5)" by code_simp
  have a: "SetBadFlag w_guard 5 = Inr ?g"
    using SetErase_honours_deferred_deletion [OF g1 g2] g3 by blast
  have h1: "mpMap (kfs ?g 5) \<noteq> 0" by code_simp
  have h2: "mnId (kfs ?g 5) \<noteq> mnInitKFid (maps ?g (mpMap (kfs ?g 5)))" by code_simp
  have h3: "mbToBeErased (kfs ?g 5) \<and> mspLoopEdges (kfs ?g 5) = []" by code_simp
  have h4: "\<not> isl (SetErase ?g 5)" by code_simp
  then have "SetErase ?g 5 = Inr (projr (SetErase ?g 5))" by simp
  then have b: "mbBad (kfs (projr (SetErase ?g 5)) 5)"
    using SetErase_honours_deferred_deletion [OF h1 h2] h3 by blast
  have l1: "mpMap (kfs w_loop 5) \<noteq> 0" by code_simp
  have l2: "mnId (kfs w_loop 5) \<noteq> mnInitKFid (maps w_loop (mpMap (kfs w_loop 5)))" by code_simp
  have l3: "mbNotErase (kfs w_loop 5)" by code_simp
  have c: "SetBadFlag w_loop 5 = Inr ?l"
    using SetErase_honours_deferred_deletion [OF l1 l2] l3 by blast
  have m1: "mpMap (kfs ?l 5) \<noteq> 0" by code_simp
  have m2: "mnId (kfs ?l 5) \<noteq> mnInitKFid (maps ?l (mpMap (kfs ?l 5)))" by code_simp
  have m3: "mbToBeErased (kfs ?l 5) \<and> mspLoopEdges (kfs ?l 5) \<noteq> [] \<and> mbNotErase (kfs ?l 5)"
    by code_simp
  have d: "SetErase ?l 5 = Inr ?l"
    using SetErase_honours_deferred_deletion [OF m1 m2] m3 by blast
  have e: "\<not> mbBad (kfs ?l 5)" by code_simp
  show ?thesis using g3 g4 a h4 b c d e by blast
qed

subsection \<open>The cached covisibility ordering\<close>

lemma push_front_not_bad_eq:
  "push_front_not_bad s ps (lk, lw) = Inr r \<Longrightarrow>
   r = (rev (map snd (filter (\<lambda>(w, p). \<not> isBad s p) ps)) @ lk,
        rev (map fst (filter (\<lambda>(w, p). \<not> isBad s p) ps)) @ lw)"
  by (induction s ps "(lk, lw)" arbitrary: lk lw rule: push_front_not_bad.induct)
     (auto split: if_splits)

lemma sorted_fst_of_sorted_pairs:
  fixes ps :: "(int \<times> nat) list"
  shows "sorted ps \<Longrightarrow> sorted (map fst ps)"
  by (induction ps) (auto simp: less_eq_prod_def)

lemma sorted_wrt_ge_rev: "sorted (xs :: int list) \<Longrightarrow> sorted_wrt (\<lambda>a b. a \<ge> b) (rev xs)"
  by (simp add: sorted_wrt_rev)

lemma sorted_filter_pairs:
  fixes ps :: "(int \<times> nat) list"
  shows "sorted_wrt (\<lambda>a b. a \<ge> b) (rev (map fst (filter P (sort ps))))"
proof -
  have "sorted (filter P (sort ps))" by (simp add: sorted_wrt_filter)
  then have "sorted (map fst (filter P (sort ps)))" by (rule sorted_fst_of_sorted_pairs)
  then show ?thesis by (rule sorted_wrt_ge_rev)
qed

text \<open>What UpdateBestCovisibles does when it returns: only the two ordered vectors of
  the keyframe change; they have one length, the weights do not increase, and the
  keyframes are the keys of the weight map that are not bad.\<close>

lemma UpdateBestCovisibles_result:
  assumes "UpdateBestCovisibles s this = Inr s'"
  shows "\<exists>lk lw. s' = upd_kf s this (\<lambda>k. k\<lparr> mvpOrderedConnectedKeyFrames := lk, mvOrderedWeights := lw \<rparr>)
           \<and> length lk = length lw \<and> sorted_wrt (\<lambda>a b. a \<ge> b) lw
           \<and> set lk = {p. stdmap_count (mConnectedKeyFrameWeights (kfs s this)) p \<and> \<not> isBad s p}"
proof -
  let ?ps = "sort (map (\<lambda>(pKF, w). (w, pKF)) (mConnectedKeyFrameWeights (kfs s this)))"
  let ?f = "filter (\<lambda>(w, p). \<not> isBad s p) ?ps"
  from assms obtain r where r: "push_front_not_bad s ?ps ([], []) = Inr r"
    and s': "s' = upd_kf s this (\<lambda>k. k\<lparr> mvpOrderedConnectedKeyFrames := fst r, mvOrderedWeights := snd r \<rparr>)"
    by (auto simp: UpdateBestCovisibles_def Let_def split: sum.splits prod.splits)
  from push_front_not_bad_eq [OF r] have req: "r = (rev (map snd ?f), rev (map fst ?f))" by simp
  have "set (map snd ?f) = {p. stdmap_count (mConnectedKeyFrameWeights (kfs s this)) p \<and> \<not> isBad s p}"
    by (auto simp: stdmap_count_def map_of_eq_None_iff image_iff) force+
  with req s' show ?thesis
    by (intro exI [of _ "fst r"] exI [of _ "snd r"]) (simp add: sorted_filter_pairs)
qed

lemma UpdateBestCovisibles_inv:
  assumes "UpdateBestCovisibles s this = Inr s'" and "world_ordered_inv s"
  shows "world_ordered_inv s'"
  using UpdateBestCovisibles_result [OF assms(1)] assms(2)
  by (auto simp: world_ordered_inv_def ordered_inv_def)

lemma world_ordered_inv_frame:
  assumes "\<And>k. mvpOrderedConnectedKeyFrames (f k) = mvpOrderedConnectedKeyFrames k"
    and "\<And>k. mvOrderedWeights (f k) = mvOrderedWeights k"
  shows "world_ordered_inv (upd_kf s p f) = world_ordered_inv s"
  using assms by (auto simp: world_ordered_inv_def ordered_inv_def)

lemma AddConnection_cases:
  assumes "AddConnection s this pKF w = Inr s'"
  shows "s' = s \<or> UpdateBestCovisibles
      (upd_kf s this (\<lambda>k. k\<lparr> mConnectedKeyFrameWeights :=
         stdmap_set pKF w (mConnectedKeyFrameWeights (kfs s this)) \<rparr>)) this = Inr s'"
  using assms by (auto simp: AddConnection_def Let_def split: if_splits)

lemma EraseConnection_cases:
  assumes "EraseConnection s this pKF = Inr s'"
  shows "(s' = s \<and> \<not> stdmap_count (mConnectedKeyFrameWeights (kfs s this)) pKF)
       \<or> UpdateBestCovisibles
      (upd_kf s this (\<lambda>k. k\<lparr> mConnectedKeyFrameWeights :=
         stdmap_erase pKF (mConnectedKeyFrameWeights (kfs s this)) \<rparr>)) this = Inr s'"
  using assms by (auto simp: EraseConnection_def Let_def split: if_splits)

lemma AddConnection_inv:
  assumes "AddConnection s this pKF w = Inr s'" and "world_ordered_inv s"
  shows "world_ordered_inv s'"
  using AddConnection_cases [OF assms(1)]
proof
  assume "s' = s"
  with assms show ?thesis by simp
next
  assume "UpdateBestCovisibles
      (upd_kf s this (\<lambda>k. k\<lparr> mConnectedKeyFrameWeights :=
         stdmap_set pKF w (mConnectedKeyFrameWeights (kfs s this)) \<rparr>)) this = Inr s'"
  then show ?thesis
    by (rule UpdateBestCovisibles_inv) (simp add: world_ordered_inv_frame assms(2))
qed

lemma EraseConnection_inv:
  assumes "EraseConnection s this pKF = Inr s'" and "world_ordered_inv s"
  shows "world_ordered_inv s'"
  using EraseConnection_cases [OF assms(1)]
proof
  assume "s' = s \<and> \<not> stdmap_count (mConnectedKeyFrameWeights (kfs s this)) pKF"
  with assms show ?thesis by simp
next
  assume "UpdateBestCovisibles
      (upd_kf s this (\<lambda>k. k\<lparr> mConnectedKeyFrameWeights :=
         stdmap_erase pKF (mConnectedKeyFrameWeights (kfs s this)) \<rparr>)) this = Inr s'"
  then show ?thesis
    by (rule UpdateBestCovisibles_inv) (simp add: world_ordered_inv_frame assms(2))
qed

text \<open>One step of the promotion loop, and the loop.\<close>

lemma promote_loop_Cons:
  assumes "promote_loop this ((pKFi, n) # cs) (s, nmax, pKFmax, vPairs) = Inr r"
  shows "(n \<ge> th \<and> pKFi \<noteq> 0 \<and> (\<exists>s1. AddConnection s pKFi this n = Inr s1 \<and>
            promote_loop this cs (s1, (if n > nmax then n else nmax),
              (if n > nmax then pKFi else pKFmax), vPairs @ [(n, pKFi)]) = Inr r))
       \<or> (\<not> n \<ge> th \<and>
            promote_loop this cs (s, (if n > nmax then n else nmax),
              (if n > nmax then pKFi else pKFmax), vPairs) = Inr r)"
  using assms by (auto simp: Let_def split: if_splits sum.splits)

lemma promote_loop_inv:
  "promote_loop this cs (s, nmax, pKFmax, vPairs) = Inr (s', nmax', pKFmax', vPairs') \<Longrightarrow>
   world_ordered_inv s \<Longrightarrow> world_ordered_inv s'"
proof (induction cs arbitrary: s nmax pKFmax vPairs)
  case Nil
  then show ?case by simp
next
  case (Cons c cs)
  obtain pKFi n where c: "c = (pKFi, n)" by (cases c)
  from promote_loop_Cons [OF Cons.prems(1) [unfolded c]] show ?case
  proof (elim disjE conjE exE)
    fix s1
    assume 1: "AddConnection s pKFi this n = Inr s1"
      and 2: "promote_loop this cs (s1, (if n > nmax then n else nmax),
            (if n > nmax then pKFi else pKFmax), vPairs @ [(n, pKFi)]) = Inr (s', nmax', pKFmax', vPairs')"
    from AddConnection_inv [OF 1 Cons.prems(2)] have "world_ordered_inv s1" .
    from Cons.IH [OF 2 this] show ?thesis .
  next
    assume "promote_loop this cs (s, (if n > nmax then n else nmax),
            (if n > nmax then pKFi else pKFmax), vPairs) = Inr (s', nmax', pKFmax', vPairs')"
    from Cons.IH [OF this Cons.prems(2)] show ?thesis .
  qed
qed

lemma promote_max_cases:
  assumes "promote_max this (s, nmax, pKFmax, vPairs) = Inr (s', vPairs')"
  shows "(vPairs \<noteq> [] \<and> s' = s \<and> vPairs' = vPairs)
       \<or> (vPairs = [] \<and> pKFmax \<noteq> 0 \<and> AddConnection s pKFmax this nmax = Inr s'
            \<and> vPairs' = [(nmax, pKFmax)])"
  using assms by (auto simp: promote_max_def split: if_splits sum.splits)

lemma promote_max_inv:
  assumes "promote_max this (s, nmax, pKFmax, vPairs) = Inr (s', vPairs')" and "world_ordered_inv s"
  shows "world_ordered_inv s'"
  using promote_max_cases [OF assms(1)] assms(2) by (auto dest: AddConnection_inv)

lemma push_front_all_eq: "push_front_all ps = (rev (map snd ps), rev (map fst ps))"
proof -
  have "fold (\<lambda>(w, pKF) (lKFs, lWs). (pKF # lKFs, w # lWs)) ps (lk, lw)
        = (rev (map snd ps) @ lk, rev (map fst ps) @ lw)" for lk lw
    by (induction ps arbitrary: lk lw) auto
  then show ?thesis by (simp add: push_front_all_def)
qed

lemma store_connections_cases:
  assumes "store_connections s this KFcounter vPairs = Inr s'"
  shows "s' = stored s this KFcounter vPairs \<or>
     s' = upd_kf (AddChild (upd_kf (stored s this KFcounter vPairs) this
                              (\<lambda>k. k\<lparr> mpParent := hd (mvpOrderedConnectedKeyFrames k) \<rparr>))
                   (hd (rev (map snd (sort vPairs)))) this)
            this (\<lambda>k. k\<lparr> mbFirstConnection := False \<rparr>)"
  using assms
  unfolding store_connections_def push_front_all_eq Let_def fst_conv snd_conv stored_def
  by (auto split: if_splits)

lemma world_ordered_inv_stored:
  assumes "world_ordered_inv s"
  shows "world_ordered_inv (stored s this KFcounter vPairs)"
proof -
  have "sorted (map fst (sort vPairs))"
    by (rule sorted_fst_of_sorted_pairs) simp
  then have "sorted_wrt (\<lambda>a b. a \<ge> b) (rev (map fst (sort vPairs)))"
    by (rule sorted_wrt_ge_rev)
  with assms show ?thesis
    by (auto simp: world_ordered_inv_def ordered_inv_def stored_def)
qed

lemma store_connections_inv:
  assumes "store_connections s this KFcounter vPairs = Inr s'" and "world_ordered_inv s"
  shows "world_ordered_inv s'"
  using store_connections_cases [OF assms(1)] world_ordered_inv_stored [OF assms(2), of this KFcounter vPairs]
  by (auto simp: AddChild_def world_ordered_inv_frame)

lemma UpdateConnections_cases:
  assumes "UpdateConnections s this upParent = Inr s'"
  shows "s' = s \<or> (\<exists>KFcounter s1 nmax pKFmax vPairs s2 vPairs2.
      count_map_points s this (mvpMapPoints (kfs s this)) [] = Inr KFcounter \<and> KFcounter \<noteq> [] \<and>
      promote_loop this KFcounter (s, 0, 0, []) = Inr (s1, nmax, pKFmax, vPairs) \<and>
      promote_max this (s1, nmax, pKFmax, vPairs) = Inr (s2, vPairs2) \<and>
      store_connections s2 this KFcounter vPairs2 = Inr s')"
  using assms unfolding UpdateConnections_def
  by (auto split: sum.splits if_splits prod.splits)

lemma UpdateConnections_inv:
  assumes "UpdateConnections s this upParent = Inr s'" and "world_ordered_inv s"
  shows "world_ordered_inv s'"
  using UpdateConnections_cases [OF assms(1)]
proof (elim disjE exE conjE)
  assume "s' = s"
  with assms show ?thesis by simp
next
  fix KFcounter s1 nmax pKFmax vPairs s2 vPairs2
  assume 1: "promote_loop this KFcounter (s, 0, 0, []) = Inr (s1, nmax, pKFmax, vPairs)"
    and 2: "promote_max this (s1, nmax, pKFmax, vPairs) = Inr (s2, vPairs2)"
    and 3: "store_connections s2 this KFcounter vPairs2 = Inr s'"
  from promote_loop_inv [OF 1 assms(2)] have "world_ordered_inv s1" .
  from promote_max_inv [OF 2 this] have "world_ordered_inv s2" .
  from store_connections_inv [OF 3 this] show ?thesis .
qed

lemma PostLoad_inv:
  assumes "PostLoad s this mpKFid mpMPid mpCamId = Inr s'" and "world_ordered_inv s"
  shows "world_ordered_inv s'"
  using assms(1) unfolding PostLoad_def
  by (rule UpdateBestCovisibles_inv)
     (simp add: world_ordered_inv_frame PostLoad_restore_def SetPose_members_def assms(2))

text \<open>The binary search on weights that do not increase finds the number of weights
  that are at least the value searched for.\<close>

lemma sorted_desc_nth_iff:
  assumes "sorted_wrt (\<lambda>a b. a \<ge> b) (ws :: int list)" and "i < length ws"
  shows "ws ! i \<ge> val \<longleftrightarrow> i < length (takeWhile (\<lambda>x. x \<ge> val) ws)"
  using assms
proof (induction ws arbitrary: i)
  case Nil
  then show ?case by simp
next
  case (Cons a ws)
  show ?case
  proof (cases i)
    case 0
    then show ?thesis by simp
  next
    case (Suc j)
    with Cons.prems have j: "j < length ws" and le: "ws ! j \<le> a"
      and s: "sorted_wrt (\<lambda>a b. a \<ge> b) ws"
      by auto
    from Cons.IH [OF s j] Suc le show ?thesis by auto
  qed
qed

lemma upper_bound_loop_sorted:
  "sorted_wrt (\<lambda>a b. a \<ge> b) ws \<Longrightarrow>
   first \<le> length (takeWhile (\<lambda>x. x \<ge> val) ws) \<Longrightarrow>
   length (takeWhile (\<lambda>x. x \<ge> val) ws) \<le> first + len \<Longrightarrow>
   first + len \<le> length ws \<Longrightarrow>
   upper_bound_loop ws val first len = length (takeWhile (\<lambda>x. x \<ge> val) ws)"
proof (induction ws val first len rule: upper_bound_loop.induct)
  case (1 ws val first len)
  let ?n = "length (takeWhile (\<lambda>x. x \<ge> val) ws)"
  note srt = 1(3) and lo = 1(4) and hi = 1(5) and bnd = 1(6)
  show ?case
  proof (cases "len > 0")
    case False
    with lo hi show ?thesis by (simp add: upper_bound_loop.simps)
  next
    case True
    let ?half = "len div 2"
    let ?middle = "first + ?half"
    have mid: "?middle < length ws" using True bnd by (simp add: less_le_trans)
    have iff: "weightComp val (ws ! ?middle) \<longleftrightarrow> ?n \<le> ?middle"
      using sorted_desc_nth_iff [OF srt mid, of val] by (auto simp: weightComp_def)
    show ?thesis
    proof (cases "weightComp val (ws ! ?middle)")
      case w: True
      have "upper_bound_loop ws val first ?half = ?n"
      proof (rule 1(1) [OF True refl refl w srt lo])
        show "?n \<le> first + ?half" using w iff by simp
        show "first + ?half \<le> length ws" using mid by simp
      qed
      then show ?thesis using True w
        by (subst upper_bound_loop.simps) (simp add: Let_def)
    next
      case w: False
      have "upper_bound_loop ws val (?middle + 1) (len - ?half - 1) = ?n"
      proof (rule 1(2) [OF True refl refl w srt])
        show "?middle + 1 \<le> ?n" using w iff by simp
        show "?n \<le> ?middle + 1 + (len - ?half - 1)" using hi True by simp
        show "?middle + 1 + (len - ?half - 1) \<le> length ws" using bnd True by simp
      qed
      then show ?thesis using True w
        by (subst upper_bound_loop.simps) (simp add: Let_def)
    qed
  qed
qed

lemma upper_bound_sorted:
  assumes "sorted_wrt (\<lambda>a b. a \<ge> b) ws"
  shows "upper_bound ws val = length (takeWhile (\<lambda>x. x \<ge> val) ws)"
  unfolding upper_bound_def
  by (rule upper_bound_loop_sorted [OF assms]) (simp_all add: length_takeWhile_le)

lemma take_zip_filter:
  "length ks = length (ws :: int list) \<Longrightarrow> sorted_wrt (\<lambda>a b. a \<ge> b) ws \<Longrightarrow>
   take (length (takeWhile (\<lambda>x. x \<ge> val) ws)) ks
   = map fst (filter (\<lambda>(p, x). x \<ge> val) (zip ks ws))"
proof (induction ks ws rule: list_induct2)
  case Nil
  then show ?case by simp
next
  case (Cons k ks w ws)
  show ?case
  proof (cases "w \<ge> val")
    case True
    with Cons show ?thesis by simp
  next
    case False
    with Cons.prems have "\<forall>x \<in> set ws. \<not> x \<ge> val" by auto
    then have "filter (\<lambda>(p, x). x \<ge> val) (zip ks ws) = []"
      by (auto simp: filter_empty_conv dest: set_zip_rightD)
    with False show ?thesis by simp
  qed
qed

lemma GetCovisiblesByWeight_inv:
  assumes "ordered_inv (kfs s this)"
  shows "GetCovisiblesByWeight s this w =
         map fst (filter (\<lambda>(p, x). x \<ge> w)
           (zip (mvpOrderedConnectedKeyFrames (kfs s this)) (mvOrderedWeights (kfs s this))))"
proof -
  let ?ks = "mvpOrderedConnectedKeyFrames (kfs s this)"
  let ?ws = "mvOrderedWeights (kfs s this)"
  let ?n = "length (takeWhile (\<lambda>x. x \<ge> w) ?ws)"
  from assms have len: "length ?ks = length ?ws" and srt: "sorted_wrt (\<lambda>a b. a \<ge> b) ?ws"
    by (auto simp: ordered_inv_def)
  have ub: "upper_bound ?ws w = ?n" by (rule upper_bound_sorted [OF srt])
  show ?thesis
  proof (cases "?ks = []")
    case True
    then show ?thesis by (simp add: GetCovisiblesByWeight_def Let_def)
  next
    case False
    with len have ne: "?ws \<noteq> []" by auto
    have dead: "\<not> (?n = length ?ws \<and> last ?ws < w)"
    proof
      assume a: "?n = length ?ws \<and> last ?ws < w"
      then have "takeWhile (\<lambda>x. x \<ge> w) ?ws = ?ws"
        by (metis takeWhile_eq_take take_all_iff order_refl)
      then have "\<forall>x \<in> set ?ws. x \<ge> w" by (metis set_takeWhileD)
      with ne have "last ?ws \<ge> w" by auto
      with a show False by simp
    qed
    have "GetCovisiblesByWeight s this w = take ?n ?ks"
      unfolding GetCovisiblesByWeight_def Let_def ub using False dead
      by (simp only: if_False)
    then show ?thesis
      by (simp only: take_zip_filter [OF len srt])
  qed
qed

lemma world_ordered_inv_w_tree: "world_ordered_inv w_tree"
  by (simp add: world_ordered_inv_def ordered_inv_def w_tree_def kf_node_def KeyFrame_default_def)

lemma world_ordered_inv_w_cov: "world_ordered_inv w_cov"
  by (simp add: world_ordered_inv_def ordered_inv_def w_cov_def kf_node_def KeyFrame_default_def)

lemma map_of_stdmap_set [simp]: "map_of (stdmap_set k v m) = (map_of m)(k \<mapsto> v)"
  by (induction m) (auto simp: fun_eq_iff)

lemma keys_stdmap_set [simp]: "fst ` set (stdmap_set k v m) = insert k (fst ` set m)"
  by (simp add: dom_map_of_conv_image_fst [symmetric])

lemma set_stdmap_set: "set (stdmap_set k v m) \<subseteq> insert (k, v) (set m)"
  by (induction m) (auto split: if_splits)

lemma strict_sorted_stdmap_set:
  "sorted_wrt (<) (map fst m) \<Longrightarrow> sorted_wrt (<) (map fst (stdmap_set k v m))"
proof (induction m)
  case Nil
  then show ?case by simp
next
  case (Cons e m)
  obtain k' v' where e: "e = (k', v')" by (cases e)
  from Cons.prems e have sm: "sorted_wrt (<) (map fst m)" and lt: "\<forall>x \<in> fst ` set m. k' < x"
    by auto
  show ?case
  proof (cases "k < k'")
    case True
    with Cons.prems e show ?thesis by auto
  next
    case False
    show ?thesis
    proof (cases "k = k'")
      case True
      with Cons.prems e show ?thesis by auto
    next
      case ne: False
      with False have "k' < k" by simp
      with lt have "\<forall>x \<in> fst ` set (stdmap_set k v m). k' < x" by simp
      then show ?thesis using False ne e Cons.IH [OF sm] by (auto simp: image_iff)
    qed
  qed
qed

lemma map_of_stdmap_erase [simp]: "map_of (stdmap_erase k m) = (map_of m)(k := None)"
  by (induction m) (auto simp: stdmap_erase_def fun_eq_iff)

lemma stdmap_at_ge: "\<forall>e \<in> set m. snd e \<ge> (1::int) \<Longrightarrow> stdmap_at m k \<ge> 0"
  unfolding stdmap_at_def
  by (auto split: option.splits dest!: map_of_SomeD)

lemma tally_ok_step:
  assumes "tally_ok s this m" and "p \<noteq> 0" and "mnId (kfs s p) \<noteq> mnId (kfs s this)"
  shows "tally_ok s this (stdmap_set p (stdmap_at m p + 1) m)"
proof -
  from assms(1) have "\<forall>e \<in> set m. snd e \<ge> 1" by (auto simp: tally_ok_def)
  from stdmap_at_ge [OF this, of p] have "stdmap_at m p + 1 \<ge> 1" by simp
  with assms set_stdmap_set [of p "stdmap_at m p + 1" m] show ?thesis
    unfolding tally_ok_def by (auto simp: strict_sorted_stdmap_set)
qed

lemma count_observations_ok:
  "count_observations s this obs m = Inr m' \<Longrightarrow> tally_ok s this m \<Longrightarrow> tally_ok s this m'"
proof (induction obs arbitrary: m)
  case Nil
  then show ?case by simp
next
  case (Cons o1 obs)
  obtain p idx where o1: "o1 = (p, idx)" by (cases o1)
  show ?case
  proof (cases "mnId (kfs s p) = mnId (kfs s this) \<or> isBad s p \<or> mpMap (kfs s p) \<noteq> mpMap (kfs s this)")
    case True
    with Cons.prems(1) o1 have "count_observations s this obs m = Inr m'"
      by (auto split: if_splits)
    from Cons.IH [OF this Cons.prems(2)] show ?thesis .
  next
    case False
    with Cons.prems(1) o1 have p: "p \<noteq> 0"
      and r: "count_observations s this obs (stdmap_set p (stdmap_at m p + 1) m) = Inr m'"
      by (auto split: if_splits)
    from False have "mnId (kfs s p) \<noteq> mnId (kfs s this)" by simp
    from Cons.IH [OF r tally_ok_step [OF Cons.prems(2) p this]] show ?thesis .
  qed
qed

lemma count_map_points_ok:
  "count_map_points s this vpMP m = Inr m' \<Longrightarrow> tally_ok s this m \<Longrightarrow> tally_ok s this m'"
proof (induction vpMP arbitrary: m)
  case Nil
  then show ?case by simp
next
  case (Cons pMP vpMP)
  show ?case
  proof (cases "pMP = 0 \<or> mbBad_mp (mps s pMP)")
    case True
    with Cons.prems(1) have "count_map_points s this vpMP m = Inr m'"
      by (auto split: if_splits)
    from Cons.IH [OF this Cons.prems(2)] show ?thesis .
  next
    case False
    with Cons.prems(1) obtain m1 where
      1: "count_observations s this (mObservations (mps s pMP)) m = Inr m1"
      and 2: "count_map_points s this vpMP m1 = Inr m'"
      by (auto split: if_splits sum.splits)
    from Cons.IH [OF 2 count_observations_ok [OF 1 Cons.prems(2)]] show ?thesis .
  qed
qed

lemma tally_ok_empty: "tally_ok s this []"
  by (simp add: tally_ok_def)

lemma keeps_covD:
  "keeps_cov g \<Longrightarrow> g (k\<lparr> mConnectedKeyFrameWeights := m \<rparr>) = g k"
  "keeps_cov g \<Longrightarrow> g (k\<lparr> mvpOrderedConnectedKeyFrames := lk \<rparr>) = g k"
  "keeps_cov g \<Longrightarrow> g (k\<lparr> mvOrderedWeights := lw \<rparr>) = g k"
  by (simp_all add: keeps_cov_def)

lemma keeps_treeD:
  "keeps_tree g \<Longrightarrow> g (k\<lparr> mpParent := par \<rparr>) = g k"
  "keeps_tree g \<Longrightarrow> g (k\<lparr> mspChildrens := ch \<rparr>) = g k"
  "keeps_tree g \<Longrightarrow> g (k\<lparr> mbFirstConnection := b \<rparr>) = g k"
  by (simp_all add: keeps_tree_def)

lemma keeps_endD:
  "keeps_end g \<Longrightarrow> g (k\<lparr> mTcp := t \<rparr>) = g k"
  "keeps_end g \<Longrightarrow> g (k\<lparr> mbBad := b \<rparr>) = g k"
  by (simp_all add: keeps_end_def)

lemma keeps_cov_fields [simp]:
  "keeps_cov mnId" "keeps_cov mpMap" "keeps_cov mbBad" "keeps_cov mpParent"
  "keeps_cov mspChildrens" "keeps_cov mbNotErase" "keeps_cov mbToBeErased"
  "keeps_cov mspLoopEdges" "keeps_cov mspMergeEdges" "keeps_cov mvpMapPoints"
  by (simp_all add: keeps_cov_def)

lemma keeps_tree_fields [simp]:
  "keeps_tree mnId" "keeps_tree mpMap" "keeps_tree mbBad"
  "keeps_tree mConnectedKeyFrameWeights" "keeps_tree mvpOrderedConnectedKeyFrames"
  "keeps_tree mvOrderedWeights" "keeps_tree mbNotErase" "keeps_tree mbToBeErased"
  "keeps_tree mspLoopEdges" "keeps_tree mspMergeEdges" "keeps_tree mvpMapPoints"
  by (simp_all add: keeps_tree_def)

lemma keeps_end_fields [simp]:
  "keeps_end mnId" "keeps_end mpMap" "keeps_end mpParent" "keeps_end mspChildrens"
  "keeps_end mConnectedKeyFrameWeights" "keeps_end mvpOrderedConnectedKeyFrames"
  "keeps_end mvOrderedWeights" "keeps_end mbNotErase" "keeps_end mbToBeErased"
  "keeps_end mspLoopEdges" "keeps_end mspMergeEdges" "keeps_end mvpMapPoints"
  by (simp_all add: keeps_end_def)

subsection \<open>What the covisibility operations leave alone\<close>

lemma UpdateBestCovisibles_other:
  assumes "UpdateBestCovisibles s this = Inr s'" and "p \<noteq> this"
  shows "kfs s' p = kfs s p"
  using UpdateBestCovisibles_result [OF assms(1)] assms(2) by auto

lemma UpdateBestCovisibles_keeps:
  assumes "UpdateBestCovisibles s this = Inr s'" and "keeps_cov g"
  shows "g (kfs s' p) = g (kfs s p)"
  using UpdateBestCovisibles_result [OF assms(1)] assms(2)
  by (auto simp: keeps_covD)

lemma UpdateBestCovisibles_weights:
  assumes "UpdateBestCovisibles s this = Inr s'"
  shows "mConnectedKeyFrameWeights (kfs s' p) = mConnectedKeyFrameWeights (kfs s p)"
  using UpdateBestCovisibles_result [OF assms(1)] by auto

lemma UpdateBestCovisibles_rest:
  assumes "UpdateBestCovisibles s this = Inr s'"
  shows "mps s' = mps s" "maps s' = maps s" "camIds s' = camIds s" "kfdb s' = kfdb s"
  using UpdateBestCovisibles_result [OF assms(1)] by auto

lemma AddConnection_other:
  assumes "AddConnection s this pKF w = Inr s'" and "p \<noteq> this"
  shows "kfs s' p = kfs s p"
  using AddConnection_cases [OF assms(1)] assms(2)
  by (auto dest: UpdateBestCovisibles_other)

lemma AddConnection_keeps:
  assumes "AddConnection s this pKF w = Inr s'" and "keeps_cov g"
  shows "g (kfs s' p) = g (kfs s p)"
  using AddConnection_cases [OF assms(1)] assms(2)
  by (auto dest!: UpdateBestCovisibles_keeps [where g = g and p = p] simp: keeps_covD)

lemma AddConnection_rest:
  assumes "AddConnection s this pKF w = Inr s'"
  shows "mps s' = mps s" "maps s' = maps s"
  using AddConnection_cases [OF assms(1)]
  by (auto dest: UpdateBestCovisibles_rest)

lemma AddConnection_weight:
  assumes "AddConnection s this pKF w = Inr s'"
  shows "map_of (mConnectedKeyFrameWeights (kfs s' this)) pKF = Some w"
proof -
  let ?m = "mConnectedKeyFrameWeights (kfs s this)"
  let ?u = "upd_kf s this (\<lambda>k. k\<lparr> mConnectedKeyFrameWeights := stdmap_set pKF w ?m \<rparr>)"
  show ?thesis
  proof (cases "stdmap_count ?m pKF \<and> stdmap_at ?m pKF = w")
    case True
    with assms have "s' = s" by (simp add: AddConnection_def Let_def)
    with True show ?thesis by (auto simp: stdmap_count_def stdmap_at_def)
  next
    case False
    with assms have "UpdateBestCovisibles ?u this = Inr s'"
      by (auto simp: AddConnection_def Let_def split: if_splits)
    from UpdateBestCovisibles_weights [OF this, of this] show ?thesis by simp
  qed
qed

lemma EraseConnection_other:
  assumes "EraseConnection s this pKF = Inr s'" and "p \<noteq> this"
  shows "kfs s' p = kfs s p"
  using EraseConnection_cases [OF assms(1)] assms(2)
  by (auto dest: UpdateBestCovisibles_other)

lemma EraseConnection_keeps:
  assumes "EraseConnection s this pKF = Inr s'" and "keeps_cov g"
  shows "g (kfs s' p) = g (kfs s p)"
  using EraseConnection_cases [OF assms(1)] assms(2)
  by (auto dest!: UpdateBestCovisibles_keeps [where g = g and p = p] simp: keeps_covD)

lemma EraseConnection_rest:
  assumes "EraseConnection s this pKF = Inr s'"
  shows "mps s' = mps s" "maps s' = maps s"
  using EraseConnection_cases [OF assms(1)]
  by (auto dest: UpdateBestCovisibles_rest)

subsection \<open>What the tree operations leave alone\<close>

lemma AddChild_keeps: "keeps_tree g \<Longrightarrow> g (kfs (AddChild s this pKF) p) = g (kfs s p)"
  by (simp add: AddChild_def keeps_treeD)

lemma EraseChild_keeps: "keeps_tree g \<Longrightarrow> g (kfs (EraseChild s this pKF) p) = g (kfs s p)"
  by (simp add: EraseChild_def keeps_treeD)

lemma ChangeParent_result:
  assumes "ChangeParent s this pKF = Inr s'"
  shows "pKF \<noteq> this \<and> pKF \<noteq> 0 \<and>
         s' = AddChild (upd_kf s this (\<lambda>k. k\<lparr> mpParent := pKF \<rparr>)) pKF this"
  using assms by (auto simp: ChangeParent_def Let_def split: if_splits)

lemma ChangeParent_keeps:
  assumes "ChangeParent s this pKF = Inr s'" and "keeps_tree g"
  shows "g (kfs s' p) = g (kfs s p)"
  using ChangeParent_result [OF assms(1)] assms(2)
  by (simp add: AddChild_keeps keeps_treeD)


lemma ChangeParent_rest:
  assumes "ChangeParent s this pKF = Inr s'"
  shows "mps s' = mps s" "maps s' = maps s"
  using ChangeParent_result [OF assms] by (simp_all add: AddChild_def)

lemma GetWeight_map_of:
  "GetWeight s p q = (case map_of (mConnectedKeyFrameWeights (kfs s p)) q of None \<Rightarrow> 0 | Some v \<Rightarrow> v)"
  by (simp add: GetWeight_def Let_def stdmap_count_def stdmap_at_def split: option.splits)

lemma promote_loop_effect:
  "promote_loop A cs (s, nmax, pKFmax, vPairs) = Inr (s', nmax', pKFmax', vPairs') \<Longrightarrow>
   distinct (map fst cs) \<Longrightarrow>
     (\<forall>B n. (B, n) \<in> set cs \<and> n \<ge> th \<longrightarrow> map_of (mConnectedKeyFrameWeights (kfs s' B)) A = Some n)
   \<and> (\<forall>p. p \<notin> fst ` set cs \<longrightarrow> kfs s' p = kfs s p)
   \<and> maps s' = maps s
   \<and> set vPairs' = set vPairs \<union> {(n, B). (B, n) \<in> set cs \<and> n \<ge> th}
   \<and> (((nmax', pKFmax') = (nmax, pKFmax) \<and> (\<forall>e \<in> set cs. snd e \<le> nmax))
        \<or> ((pKFmax', nmax') \<in> set cs \<and> nmax' > nmax))"
proof (induction cs arbitrary: s nmax pKFmax vPairs)
  case Nil
  then show ?case by simp
next
  case (Cons c cs)
  obtain B n where c: "c = (B, n)" by (cases c)
  from Cons.prems(2) c have d: "distinct (map fst cs)" and nB: "B \<notin> fst ` set cs" by auto
  let ?nmax = "if n > nmax then n else nmax"
  let ?pmax = "if n > nmax then B else pKFmax"
  from promote_loop_Cons [OF Cons.prems(1) [unfolded c]] show ?case
  proof (elim disjE conjE exE)
    fix s1
    assume ge: "n \<ge> th" and 1: "AddConnection s B A n = Inr s1"
      and 2: "promote_loop A cs (s1, ?nmax, ?pmax, vPairs @ [(n, B)]) = Inr (s', nmax', pKFmax', vPairs')"
    note ih = Cons.IH [OF 2 d]
    from ih nB have "kfs s' B = kfs s1 B" by blast
    with AddConnection_weight [OF 1]
    have wB: "map_of (mConnectedKeyFrameWeights (kfs s' B)) A = Some n" by simp
    have w: "\<forall>B' n'. (B', n') \<in> set (c # cs) \<and> n' \<ge> th \<longrightarrow>
                map_of (mConnectedKeyFrameWeights (kfs s' B')) A = Some n'"
      using ih wB c by auto
    have f: "\<forall>p. p \<notin> fst ` set (c # cs) \<longrightarrow> kfs s' p = kfs s p"
      using ih AddConnection_other [OF 1] c by auto
    have m: "maps s' = maps s" using ih AddConnection_rest [OF 1] by simp
    have v: "set vPairs' = set vPairs \<union> {(n', B'). (B', n') \<in> set (c # cs) \<and> n' \<ge> th}"
      using ih ge c by auto
    have x: "((nmax', pKFmax') = (nmax, pKFmax) \<and> (\<forall>e \<in> set (c # cs). snd e \<le> nmax))
        \<or> ((pKFmax', nmax') \<in> set (c # cs) \<and> nmax' > nmax)"
      using ih c by (auto split: if_splits)
    from w f m v x show ?thesis by blast
  next
    assume lt: "\<not> n \<ge> th"
      and 2: "promote_loop A cs (s, ?nmax, ?pmax, vPairs) = Inr (s', nmax', pKFmax', vPairs')"
    note ih = Cons.IH [OF 2 d]
    have w: "\<forall>B' n'. (B', n') \<in> set (c # cs) \<and> n' \<ge> th \<longrightarrow>
                map_of (mConnectedKeyFrameWeights (kfs s' B')) A = Some n'"
      using ih lt c by auto
    have f: "\<forall>p. p \<notin> fst ` set (c # cs) \<longrightarrow> kfs s' p = kfs s p"
      using ih c by auto
    have m: "maps s' = maps s" using ih by simp
    have v: "set vPairs' = set vPairs \<union> {(n', B'). (B', n') \<in> set (c # cs) \<and> n' \<ge> th}"
      using ih lt c by auto
    have x: "((nmax', pKFmax') = (nmax, pKFmax) \<and> (\<forall>e \<in> set (c # cs). snd e \<le> nmax))
        \<or> ((pKFmax', nmax') \<in> set (c # cs) \<and> nmax' > nmax)"
      using ih c by (auto split: if_splits)
    from w f m v x show ?thesis by blast
  qed
qed

lemma stored_fields:
  "mConnectedKeyFrameWeights (kfs (stored s this KFcounter vPairs) p)
     = (if p = this then KFcounter else mConnectedKeyFrameWeights (kfs s p))"
  "mvpOrderedConnectedKeyFrames (kfs (stored s this KFcounter vPairs) p)
     = (if p = this then rev (map snd (sort vPairs)) else mvpOrderedConnectedKeyFrames (kfs s p))"
  by (simp_all add: stored_def)

lemma store_connections_effect:
  assumes "store_connections s this KFcounter vPairs = Inr s'"
  shows "mConnectedKeyFrameWeights (kfs s' p)
           = (if p = this then KFcounter else mConnectedKeyFrameWeights (kfs s p))"
    and "mvpOrderedConnectedKeyFrames (kfs s' p)
           = (if p = this then rev (map snd (sort vPairs)) else mvpOrderedConnectedKeyFrames (kfs s p))"
  using store_connections_cases [OF assms]
  by (auto simp: stored_fields AddChild_def)

subsection \<open>What UpdateConnections promotes and what it leaves unwritten\<close>

text \<open>The promotion loop writes only to the neighbours whose tally reaches the
  threshold.\<close>

lemma promote_loop_touched:
  "promote_loop A cs (s, nmax, pKFmax, vPairs) = Inr (s', nmax', pKFmax', vPairs') \<Longrightarrow>
   \<forall>p. (\<forall>n. (p, n) \<in> set cs \<longrightarrow> \<not> n \<ge> th) \<longrightarrow> kfs s' p = kfs s p"
proof (induction cs arbitrary: s nmax pKFmax vPairs)
  case Nil
  then show ?case by simp
next
  case (Cons c cs)
  obtain B n where c: "c = (B, n)" by (cases c)
  from promote_loop_Cons [OF Cons.prems(1) [unfolded c]] show ?case
  proof (elim disjE conjE exE)
    fix s1
    assume ge: "n \<ge> th" and 1: "AddConnection s B A n = Inr s1"
      and 2: "promote_loop A cs (s1, (if n > nmax then n else nmax),
            (if n > nmax then B else pKFmax), vPairs @ [(n, B)]) = Inr (s', nmax', pKFmax', vPairs')"
    show ?thesis
    proof (intro allI impI)
      fix p
      assume h: "\<forall>m. (p, m) \<in> set (c # cs) \<longrightarrow> \<not> m \<ge> th"
      with ge c have "p \<noteq> B" by auto
      from AddConnection_other [OF 1 this] have "kfs s1 p = kfs s p" .
      moreover from Cons.IH [OF 2] h have "kfs s' p = kfs s1 p" by simp
      ultimately show "kfs s' p = kfs s p" by simp
    qed
  next
    assume 2: "promote_loop A cs (s, (if n > nmax then n else nmax),
            (if n > nmax then B else pKFmax), vPairs) = Inr (s', nmax', pKFmax', vPairs')"
    from Cons.IH [OF 2] show ?thesis by simp
  qed
qed

text \<open>The maximum that the loop tracks: the highest tally, and among the neighbours
  with that tally the first in the order of the map.\<close>

lemma promote_loop_max:
  "promote_loop A cs (s, nmax, pKFmax, vPairs) = Inr (s', nmax', pKFmax', vPairs') \<Longrightarrow>
   sorted_wrt (<) (map fst cs) \<Longrightarrow>
     (\<forall>e \<in> set cs. snd e \<le> nmax') \<and> nmax \<le> nmax'
   \<and> ((nmax', pKFmax') = (nmax, pKFmax)
        \<or> (nmax < nmax' \<and> (pKFmax', nmax') \<in> set cs
            \<and> (\<forall>e \<in> set cs. snd e = nmax' \<longrightarrow> pKFmax' \<le> fst e)))"
proof (induction cs arbitrary: s nmax pKFmax vPairs)
  case Nil
  then show ?case by simp
next
  case (Cons c cs)
  obtain B n where c: "c = (B, n)" by (cases c)
  from Cons.prems(2) c have srt: "sorted_wrt (<) (map fst cs)"
    and lt: "\<forall>e \<in> set cs. B < fst e" by auto
  let ?nmax = "if n > nmax then n else nmax"
  let ?pmax = "if n > nmax then B else pKFmax"
  have "\<exists>s1 vP. promote_loop A cs (s1, ?nmax, ?pmax, vP) = Inr (s', nmax', pKFmax', vPairs')"
    using promote_loop_Cons [OF Cons.prems(1) [unfolded c]] by blast
  then obtain s1 vP where 2: "promote_loop A cs (s1, ?nmax, ?pmax, vP) = Inr (s', nmax', pKFmax', vPairs')"
    by blast
  note ih = Cons.IH [OF 2 srt]
  from ih have all: "\<forall>e \<in> set cs. snd e \<le> nmax'" and mono: "?nmax \<le> nmax'" by simp_all
  from mono have n_le: "n \<le> nmax'" and nmax_le: "nmax \<le> nmax'" by (auto split: if_splits)
  from ih have "(nmax', pKFmax') = (?nmax, ?pmax)
        \<or> (?nmax < nmax' \<and> (pKFmax', nmax') \<in> set cs
            \<and> (\<forall>e \<in> set cs. snd e = nmax' \<longrightarrow> pKFmax' \<le> fst e))" by simp
  then have "(nmax', pKFmax') = (nmax, pKFmax)
        \<or> (nmax < nmax' \<and> (pKFmax', nmax') \<in> set (c # cs)
            \<and> (\<forall>e \<in> set (c # cs). snd e = nmax' \<longrightarrow> pKFmax' \<le> fst e))"
  proof
    assume eq: "(nmax', pKFmax') = (?nmax, ?pmax)"
    show ?thesis
    proof (cases "n > nmax")
      case True
      with eq have "nmax' = n" "pKFmax' = B" by simp_all
      with True c lt show ?thesis by (auto simp: less_imp_le)
    next
      case False
      with eq show ?thesis by simp
    qed
  next
    assume r: "?nmax < nmax' \<and> (pKFmax', nmax') \<in> set cs
            \<and> (\<forall>e \<in> set cs. snd e = nmax' \<longrightarrow> pKFmax' \<le> fst e)"
    then have "n < nmax'" "nmax < nmax'" by (auto split: if_splits)
    with r c show ?thesis by auto
  qed
  with all n_le nmax_le c show ?case by simp
qed

text \<open>The last block writes to this keyframe and, when it sets the parent, to the
  first keyframe of the ordered vector.\<close>

lemma store_connections_touched:
  assumes "store_connections s this KFcounter vPairs = Inr s'" and "vPairs \<noteq> []"
    and "p \<noteq> this" and "p \<notin> snd ` set vPairs"
  shows "kfs s' p = kfs s p"
proof -
  let ?vec = "rev (map snd (sort vPairs))"
  from assms(2) have "length (sort vPairs) \<noteq> 0" by simp
  then have "?vec \<noteq> []" by (simp del: length_sort)
  then have "hd ?vec \<in> set ?vec" by (rule hd_in_set)
  then have "hd ?vec \<in> snd ` set vPairs" by simp
  with assms(4) have "p \<noteq> hd ?vec" by blast
  with store_connections_cases [OF assms(1)] assms(3) show ?thesis
    by (auto simp: stored_def AddChild_def)
qed

text \<open>
  C1, amended. When UpdateConnections(A) returns after tallying at least one
  neighbour (\<open>KFcounter\<close> is the tally map):
  \<^item> the weight on A's side is the tally, for every keyframe (zero if not tallied);
  \<^item> for every keyframe B of A's ordered covisible vector after the call, the weight on
    B's side for A equals the weight on A's side for B;
  \<^item> when some tally reaches the threshold 15, the keyframes of that vector are
    exactly the neighbours whose tally reaches it;
  \<^item> when no tally reaches it, the vector holds one keyframe, a neighbour with the
    highest tally (the first of them in the order of the map);
  \<^item> every other keyframe than A that is not in the vector is left as it was: the
    side of a neighbour that is not promoted is not written.
\<close>

theorem UpdateConnections_symmetric_for_promoted:
  assumes "UpdateConnections s A upParent = Inr s'"
    and "count_map_points s A (mvpMapPoints (kfs s A)) [] = Inr KFcounter"
    and "KFcounter \<noteq> []"
  shows "(\<forall>B. GetWeight s' A B = stdmap_at KFcounter B)
       \<and> (\<forall>B \<in> set (mvpOrderedConnectedKeyFrames (kfs s' A)). GetWeight s' B A = GetWeight s' A B)
       \<and> ((\<exists>e \<in> set KFcounter. th \<le> snd e) \<longrightarrow>
            set (mvpOrderedConnectedKeyFrames (kfs s' A)) = {B. \<exists>n. (B, n) \<in> set KFcounter \<and> th \<le> n})
       \<and> ((\<forall>e \<in> set KFcounter. snd e < th) \<longrightarrow>
            (\<exists>B n. mvpOrderedConnectedKeyFrames (kfs s' A) = [B] \<and> (B, n) \<in> set KFcounter
               \<and> (\<forall>e \<in> set KFcounter. snd e \<le> n \<and> (snd e = n \<longrightarrow> B \<le> fst e))))
       \<and> (\<forall>B. B \<noteq> A \<and> B \<notin> set (mvpOrderedConnectedKeyFrames (kfs s' A)) \<longrightarrow> kfs s' B = kfs s B)"
proof -
  let ?vec = "mvpOrderedConnectedKeyFrames (kfs s' A)"
  from count_map_points_ok [OF assms(2) tally_ok_empty]
  have ok: "tally_ok s A KFcounter" .
  then have srt: "sorted_wrt (<) (map fst KFcounter)" by (simp add: tally_ok_def)
  then have dist: "distinct (map fst KFcounter)" by (simp add: strict_sorted_iff)
  from ok have pos: "\<forall>e \<in> set KFcounter. snd e \<ge> 1" and nA: "A \<notin> fst ` set KFcounter"
    by (auto simp: tally_ok_def)
  from assms obtain s1 nmax pKFmax vPairs s2 vPairs2 where
    1: "promote_loop A KFcounter (s, 0, 0, []) = Inr (s1, nmax, pKFmax, vPairs)" and
    2: "promote_max A (s1, nmax, pKFmax, vPairs) = Inr (s2, vPairs2)" and
    3: "store_connections s2 A KFcounter vPairs2 = Inr s'"
    unfolding UpdateConnections_def
    by (auto split: sum.splits if_splits prod.splits)
  note e1 = promote_loop_effect [OF 1 dist]
  from e1 have vP: "set vPairs = {(n, B). (B, n) \<in> set KFcounter \<and> n \<ge> th}" by simp
  note mx0 = promote_loop_max [OF 1 srt]
  from assms(3) obtain e0 where "e0 \<in> set KFcounter" by (cases KFcounter) auto
  with pos mx0 have "0 < nmax" by force
  with mx0 have mx: "(pKFmax, nmax) \<in> set KFcounter"
    and top: "\<forall>e \<in> set KFcounter. snd e \<le> nmax"
    and tie: "\<forall>e \<in> set KFcounter. snd e = nmax \<longrightarrow> pKFmax \<le> fst e"
    by auto
  have wA: "mConnectedKeyFrameWeights (kfs s' A) = KFcounter"
    using store_connections_effect(1) [OF 3, of A] by simp
  have oA: "?vec = rev (map snd (sort vPairs2))"
    using store_connections_effect(2) [OF 3, of A] by simp
  then have setvec: "set ?vec = snd ` set vPairs2" by simp
  have wB: "mConnectedKeyFrameWeights (kfs s' B) = mConnectedKeyFrameWeights (kfs s2 B)" if "B \<noteq> A" for B
    using store_connections_effect(1) [OF 3, of B] that by simp
  have a: "\<forall>B. GetWeight s' A B = stdmap_at KFcounter B"
    by (simp add: GetWeight_map_of wA stdmap_at_def)
  have prom: "\<forall>n B. (n, B) \<in> set vPairs2 \<longrightarrow> (B, n) \<in> set KFcounter
                \<and> map_of (mConnectedKeyFrameWeights (kfs s2 B)) A = Some n"
    using promote_max_cases [OF 2]
  proof (elim disjE conjE)
    assume "vPairs \<noteq> []" "s2 = s1" "vPairs2 = vPairs"
    with vP e1 show ?thesis by auto
  next
    assume "vPairs = []" "pKFmax \<noteq> 0" "AddConnection s1 pKFmax A nmax = Inr s2"
      "vPairs2 = [(nmax, pKFmax)]"
    with mx AddConnection_weight [of s1 pKFmax A nmax s2] show ?thesis by auto
  qed
  have b: "\<forall>B \<in> set ?vec. GetWeight s' B A = GetWeight s' A B"
  proof
    fix B
    assume "B \<in> set ?vec"
    with oA obtain n where nB: "(n, B) \<in> set vPairs2" by force
    with prom have k: "(B, n) \<in> set KFcounter"
      and w2: "map_of (mConnectedKeyFrameWeights (kfs s2 B)) A = Some n" by auto
    from k nA have "B \<noteq> A" by force
    from wB [OF this] w2 have l: "GetWeight s' B A = n" by (simp add: GetWeight_map_of)
    from k dist have "map_of KFcounter B = Some n" by simp
    then have "GetWeight s' A B = n" by (simp add: GetWeight_map_of wA)
    with l show "GetWeight s' B A = GetWeight s' A B" by simp
  qed
  have ne: "vPairs2 \<noteq> []"
    using promote_max_cases [OF 2] by auto
  have c: "(\<exists>e \<in> set KFcounter. th \<le> snd e) \<longrightarrow>
            set ?vec = {B. \<exists>n. (B, n) \<in> set KFcounter \<and> th \<le> n}"
  proof
    assume "\<exists>e \<in> set KFcounter. th \<le> snd e"
    with vP have "vPairs \<noteq> []" by force
    with promote_max_cases [OF 2] have "vPairs2 = vPairs" by auto
    with setvec vP show "set ?vec = {B. \<exists>n. (B, n) \<in> set KFcounter \<and> th \<le> n}"
      by (auto simp: image_iff)
  qed
  have d: "(\<forall>e \<in> set KFcounter. snd e < th) \<longrightarrow>
            (\<exists>B n. ?vec = [B] \<and> (B, n) \<in> set KFcounter
               \<and> (\<forall>e \<in> set KFcounter. snd e \<le> n \<and> (snd e = n \<longrightarrow> B \<le> fst e)))"
  proof
    assume low: "\<forall>e \<in> set KFcounter. snd e < th"
    have "vPairs = []"
    proof (cases vPairs)
      case Nil
      then show ?thesis .
    next
      case (Cons x xs)
      obtain n B where "x = (n, B)" by (cases x)
      with Cons have "(n, B) \<in> set vPairs" by simp
      with vP have "(B, n) \<in> set KFcounter" "th \<le> n" by simp_all
      with low have False by force
      then show ?thesis ..
    qed
    with promote_max_cases [OF 2] have "vPairs2 = [(nmax, pKFmax)]" by auto
    with oA have "?vec = [pKFmax]" by simp
    with mx top tie show "\<exists>B n. ?vec = [B] \<and> (B, n) \<in> set KFcounter
               \<and> (\<forall>e \<in> set KFcounter. snd e \<le> n \<and> (snd e = n \<longrightarrow> B \<le> fst e))"
      by blast
  qed
  have f: "\<forall>B. B \<noteq> A \<and> B \<notin> set ?vec \<longrightarrow> kfs s' B = kfs s B"
  proof (intro allI impI)
    fix B
    assume h: "B \<noteq> A \<and> B \<notin> set ?vec"
    with setvec have nv: "B \<notin> snd ` set vPairs2" by simp
    from store_connections_touched [OF 3 ne _ nv] h have 32: "kfs s' B = kfs s2 B" by simp
    have 21: "kfs s2 B = kfs s1 B"
      using promote_max_cases [OF 2]
    proof (elim disjE conjE)
      assume "s2 = s1"
      then show ?thesis by simp
    next
      assume "AddConnection s1 pKFmax A nmax = Inr s2" "vPairs2 = [(nmax, pKFmax)]"
      with nv AddConnection_other [of s1 pKFmax A nmax s2 B] show ?thesis by simp
    qed
    have "\<forall>n. (B, n) \<in> set KFcounter \<longrightarrow> \<not> n \<ge> th"
    proof (intro allI impI notI)
      fix n
      assume "(B, n) \<in> set KFcounter" "n \<ge> th"
      with vP have "(n, B) \<in> set vPairs" by simp
      then have "vPairs \<noteq> []" by auto
      with promote_max_cases [OF 2] have "vPairs2 = vPairs" by auto
      with \<open>(n, B) \<in> set vPairs\<close> nv show False by force
    qed
    with promote_loop_touched [OF 1] have "kfs s1 B = kfs s B" by blast
    with 32 21 show "kfs s' B = kfs s B" by simp
  qed
  from a b c d f show ?thesis by blast
qed

text \<open>
  Both cases. In \<open>w_cov\<close> keyframe 1 reaches the threshold and keyframe 3 does not; in
  \<open>w_low\<close> no keyframe reaches it and keyframe 1, with the highest tally, is
  promoted. In both the promoted keyframe 1 holds the weight of keyframe 2's side, and
  keyframe 3, tallied on keyframe 2's side, is left as it was.
\<close>

theorem UpdateConnections_symmetric_for_promoted_witness:
  "\<not> isl (UpdateConnections w_cov 2 True)
   \<and> count_map_points w_cov 2 (mvpMapPoints (kfs w_cov 2)) [] = Inr [(1, 20), (3, 2)]
   \<and> set (mvpOrderedConnectedKeyFrames (kfs (projr (UpdateConnections w_cov 2 True)) 2)) = {1}
   \<and> GetWeight (projr (UpdateConnections w_cov 2 True)) 2 1 = 20
   \<and> GetWeight (projr (UpdateConnections w_cov 2 True)) 1 2 = 20
   \<and> GetWeight (projr (UpdateConnections w_cov 2 True)) 2 3 = 2
   \<and> kfs (projr (UpdateConnections w_cov 2 True)) 3 = kfs w_cov 3
   \<and> \<not> isl (UpdateConnections w_low 2 True)
   \<and> count_map_points w_low 2 (mvpMapPoints (kfs w_low 2)) [] = Inr [(1, 5), (3, 1)]
   \<and> mvpOrderedConnectedKeyFrames (kfs (projr (UpdateConnections w_low 2 True)) 2) = [1]
   \<and> GetWeight (projr (UpdateConnections w_low 2 True)) 2 1 = 5
   \<and> GetWeight (projr (UpdateConnections w_low 2 True)) 1 2 = 5
   \<and> GetWeight (projr (UpdateConnections w_low 2 True)) 2 3 = 1
   \<and> kfs (projr (UpdateConnections w_low 2 True)) 3 = kfs w_low 3"
proof -
  let ?c = "projr (UpdateConnections w_cov 2 True)"
  let ?l = "projr (UpdateConnections w_low 2 True)"
  let ?vc = "mvpOrderedConnectedKeyFrames (kfs ?c 2)"
  let ?vl = "mvpOrderedConnectedKeyFrames (kfs ?l 2)"
  have ne: "[(1, 20), (3, 2)] \<noteq> ([] :: (kfptr \<times> int) list)"
    "[(1, 5), (3, 1)] \<noteq> ([] :: (kfptr \<times> int) list)" by simp_all
  \<comment> \<open>a tally reaches the threshold\<close>
  have c0: "\<not> isl (UpdateConnections w_cov 2 True)" by code_simp
  then have c1: "UpdateConnections w_cov 2 True = Inr ?c" by simp
  have c2: "count_map_points w_cov 2 (mvpMapPoints (kfs w_cov 2)) [] = Inr [(1, 20), (3, 2)]"
    by code_simp
  note tc = UpdateConnections_symmetric_for_promoted [OF c1 c2 ne(1)]
  note tc_tally = tc [THEN conjunct1, rule_format]
  note tc_sym = tc [THEN conjunct2, THEN conjunct1, rule_format]
  note tc_set = tc [THEN conjunct2, THEN conjunct2, THEN conjunct1, rule_format]
  note tc_rest = tc [THEN conjunct2, THEN conjunct2, THEN conjunct2, THEN conjunct2, rule_format]
  have "\<exists>e \<in> set [(1 :: kfptr, 20 :: int), (3, 2)]. th \<le> snd e" by (simp add: th_def)
  from tc_set [OF this] have c3: "set ?vc = {1}" by (auto simp: th_def)
  have c4: "GetWeight ?c 2 1 = 20" unfolding tc_tally by code_simp
  from c3 have "1 \<in> set ?vc" by simp
  from tc_sym [OF this] c4 have c5: "GetWeight ?c 1 2 = 20" by simp
  have c6: "GetWeight ?c 2 3 = 2" unfolding tc_tally by code_simp
  from c3 have "(3 :: kfptr) \<noteq> 2 \<and> 3 \<notin> set ?vc" by simp
  from tc_rest [OF this] have c7: "kfs ?c 3 = kfs w_cov 3" .
  \<comment> \<open>no tally reaches the threshold\<close>
  have l0: "\<not> isl (UpdateConnections w_low 2 True)" by code_simp
  then have l1: "UpdateConnections w_low 2 True = Inr ?l" by simp
  have l2: "count_map_points w_low 2 (mvpMapPoints (kfs w_low 2)) [] = Inr [(1, 5), (3, 1)]"
    by code_simp
  note tl = UpdateConnections_symmetric_for_promoted [OF l1 l2 ne(2)]
  note tl_tally = tl [THEN conjunct1, rule_format]
  note tl_sym = tl [THEN conjunct2, THEN conjunct1, rule_format]
  note tl_one = tl [THEN conjunct2, THEN conjunct2, THEN conjunct2, THEN conjunct1, THEN mp]
  note tl_rest = tl [THEN conjunct2, THEN conjunct2, THEN conjunct2, THEN conjunct2, rule_format]
  have "\<forall>e \<in> set [(1 :: kfptr, 5 :: int), (3, 1)]. snd e < th" by (simp add: th_def)
  from tl_one [OF this] obtain B n where v: "?vl = [B]"
    and m: "(B, n) \<in> set [(1 :: kfptr, 5 :: int), (3, 1)]"
    and t: "\<forall>e \<in> set [(1 :: kfptr, 5 :: int), (3, 1)]. snd e \<le> n \<and> (snd e = n \<longrightarrow> B \<le> fst e)"
    by blast
  from m t have "B = 1" by auto
  with v have l3: "?vl = [1]" by simp
  have l4: "GetWeight ?l 2 1 = 5" unfolding tl_tally by code_simp
  from l3 have "1 \<in> set ?vl" by simp
  from tl_sym [OF this] l4 have l5: "GetWeight ?l 1 2 = 5" by simp
  have l6: "GetWeight ?l 2 3 = 1" unfolding tl_tally by code_simp
  from l3 have "(3 :: kfptr) \<noteq> 2 \<and> 3 \<notin> set ?vl" by simp
  from tl_rest [OF this] have l7: "kfs ?l 3 = kfs w_low 3" .
  show ?thesis
    by (intro conjI) (fact c0 c2 c3 c4 c5 c6 c7 l0 l2 l3 l4 l5 l6 l7)+
qed

text \<open>
  C1, as stated, fails: after UpdateConnections on keyframe 2 of \<open>w_cov\<close>, keyframe 3
  (tally 2, below the threshold, while keyframe 1 reaches it) has weight 2 on the
  side of keyframe 2 and weight 0 on its own side.
\<close>

theorem UpdateConnections_asymmetric_below_threshold:
  "\<not> isl (UpdateConnections w_cov 2 True) \<and>
   GetWeight (projr (UpdateConnections w_cov 2 True)) 2 3 = 2 \<and>
   GetWeight (projr (UpdateConnections w_cov 2 True)) 3 2 = 0"
  by code_simp

subsection \<open>What UpdateConnections and SetBadFlag leave alone\<close>

lemma promote_loop_keeps:
  "promote_loop this cs (s, nmax, pKFmax, vPairs) = Inr (s', nmax', pKFmax', vPairs') \<Longrightarrow>
   keeps_cov g \<Longrightarrow> g (kfs s' p) = g (kfs s p)"
proof (induction cs arbitrary: s nmax pKFmax vPairs)
  case Nil
  then show ?case by simp
next
  case (Cons c cs)
  obtain pKFi n where c: "c = (pKFi, n)" by (cases c)
  from promote_loop_Cons [OF Cons.prems(1) [unfolded c]] show ?case
  proof (elim disjE conjE exE)
    fix s1
    assume 1: "AddConnection s pKFi this n = Inr s1"
      and 2: "promote_loop this cs (s1, (if n > nmax then n else nmax),
            (if n > nmax then pKFi else pKFmax), vPairs @ [(n, pKFi)]) = Inr (s', nmax', pKFmax', vPairs')"
    from Cons.IH [OF 2 Cons.prems(2)] AddConnection_keeps [OF 1 Cons.prems(2)]
    show ?thesis by simp
  next
    assume "promote_loop this cs (s, (if n > nmax then n else nmax),
            (if n > nmax then pKFi else pKFmax), vPairs) = Inr (s', nmax', pKFmax', vPairs')"
    from Cons.IH [OF this Cons.prems(2)] show ?thesis .
  qed
qed

lemma promote_max_keeps:
  assumes "promote_max this (s, nmax, pKFmax, vPairs) = Inr (s', vPairs')" and "keeps_cov g"
  shows "g (kfs s' p) = g (kfs s p)"
  using promote_max_cases [OF assms(1)] assms(2) by (auto dest: AddConnection_keeps)

lemma store_connections_keeps:
  assumes "store_connections s this KFcounter vPairs = Inr s'" and "keeps_cov g" and "keeps_tree g"
  shows "g (kfs s' p) = g (kfs s p)"
  using store_connections_cases [OF assms(1)] assms(2,3)
  by (auto simp: stored_def AddChild_def keeps_covD keeps_treeD)

lemma UpdateConnections_keeps:
  assumes "UpdateConnections s this upParent = Inr s'" and "keeps_cov g" and "keeps_tree g"
  shows "g (kfs s' p) = g (kfs s p)"
  using UpdateConnections_cases [OF assms(1)]
proof (elim disjE exE conjE)
  assume "s' = s"
  then show ?thesis by simp
next
  fix KFcounter s1 nmax pKFmax vPairs s2 vPairs2
  assume 1: "promote_loop this KFcounter (s, 0, 0, []) = Inr (s1, nmax, pKFmax, vPairs)"
    and 2: "promote_max this (s1, nmax, pKFmax, vPairs) = Inr (s2, vPairs2)"
    and 3: "store_connections s2 this KFcounter vPairs2 = Inr s'"
  from promote_loop_keeps [OF 1 assms(2)] promote_max_keeps [OF 2 assms(2)]
    store_connections_keeps [OF 3 assms(2,3)]
  show ?thesis by simp
qed

lemma foldE_EraseConnection_keeps:
  assumes "foldE (\<lambda>s' pKF. if pKF = 0 then Inl NullPointer else EraseConnection s' pKF this) ps s = Inr s1"
    and "keeps_cov g"
  shows "g (kfs s1 p) = g (kfs s p)"
  using assms(1)
proof (induction ps arbitrary: s)
  case Nil
  then show ?case by simp
next
  case (Cons q ps)
  from Cons.prems obtain s2 where 1: "EraseConnection s q this = Inr s2"
    and 2: "foldE (\<lambda>s' pKF. if pKF = 0 then Inl NullPointer else EraseConnection s' pKF this) ps s2 = Inr s1"
    by (auto split: sum.splits if_splits)
  from Cons.IH [OF 2] EraseConnection_keeps [OF 1 assms(2)] show ?case by simp
qed

lemma kfs_fold_EraseObservation [simp]:
  "kfs (fold (\<lambda>pMP s'. if c pMP then MapPoint_EraseObservation s' pMP this else s') ps s) = kfs s"
  by (induction ps arbitrary: s) simp_all

lemma maps_fold_EraseObservation [simp]:
  "maps (fold (\<lambda>pMP s'. if c pMP then MapPoint_EraseObservation s' pMP this else s') ps s) = maps s"
  by (induction ps arbitrary: s) simp_all

lemma SetBadFlag_detach_result:
  assumes "SetBadFlag_detach s this = Inr s3"
  shows "\<exists>s1. foldE (\<lambda>s' pKF. if pKF = 0 then Inl NullPointer else EraseConnection s' pKF this)
               (map fst (mConnectedKeyFrameWeights (kfs s this))) s = Inr s1
           \<and> kfs s3 = (kfs s1)(this := (kfs s1 this)\<lparr> mConnectedKeyFrameWeights := [],
                                                       mvpOrderedConnectedKeyFrames := [] \<rparr>)"
proof (cases "foldE (\<lambda>s' pKF. if pKF = 0 then Inl NullPointer else EraseConnection s' pKF this)
               (map fst (mConnectedKeyFrameWeights (kfs s this))) s")
  case (Inl e)
  with assms show ?thesis by (simp add: SetBadFlag_detach_def)
next
  case (Inr s1)
  with assms have "s3 = upd_kf (fold (\<lambda>pMP s'. if pMP \<noteq> 0 then MapPoint_EraseObservation s' pMP this else s')
                         (mvpMapPoints (kfs s1 this)) s1) this
                 (\<lambda>k. k\<lparr> mConnectedKeyFrameWeights := [], mvpOrderedConnectedKeyFrames := [] \<rparr>)"
    by (simp add: SetBadFlag_detach_def)
  then have "kfs s3 = (kfs s1)(this := (kfs s1 this)\<lparr> mConnectedKeyFrameWeights := [],
                                                       mvpOrderedConnectedKeyFrames := [] \<rparr>)"
    by (simp add: upd_kf_def)
  with Inr show ?thesis by blast
qed

lemma SetBadFlag_detach_keeps:
  assumes "SetBadFlag_detach s this = Inr s3" and "keeps_cov g"
  shows "g (kfs s3 p) = g (kfs s p)"
proof -
  from SetBadFlag_detach_result [OF assms(1)] obtain s1 where
    1: "foldE (\<lambda>s' pKF. if pKF = 0 then Inl NullPointer else EraseConnection s' pKF this)
               (map fst (mConnectedKeyFrameWeights (kfs s this))) s = Inr s1"
    and 2: "kfs s3 = (kfs s1)(this := (kfs s1 this)\<lparr> mConnectedKeyFrameWeights := [],
                                                       mvpOrderedConnectedKeyFrames := [] \<rparr>)"
    by blast
  from foldE_EraseConnection_keeps [OF 1 assms(2)] 2 assms(2) show ?thesis
    by (simp add: keeps_covD)
qed

lemma reparent_loop_keeps:
  "reparent_loop s this cands = Inr (s', cands') \<Longrightarrow> keeps_tree g \<Longrightarrow> g (kfs s' p) = g (kfs s p)"
proof (induction s this cands rule: reparent_loop.induct)
  case (1 s this cands)
  show ?case
  proof (cases "mspChildrens (kfs s this) = []")
    case True
    with 1(2) show ?thesis by (simp add: reparent_loop.simps)
  next
    case False
    from 1(2) False obtain mx pC pP b where
      sc: "scan_children s (mspChildrens (kfs s this)) cands (- 1, 0, 0, False) = Inr (mx, pC, pP, b)"
      by (subst (asm) reparent_loop.simps) (auto split: sum.splits)
    show ?thesis
    proof (cases b)
      case False
      with 1(2) \<open>mspChildrens (kfs s this) \<noteq> []\<close> sc have "s' = s"
        by (subst (asm) reparent_loop.simps) simp
      then show ?thesis by simp
    next
      case True
      with 1(2) \<open>mspChildrens (kfs s this) \<noteq> []\<close> sc obtain s1 where
        cp: "ChangeParent s pC pP = Inr s1" and
        rec: "reparent_loop (upd_kf s1 this (\<lambda>k. k\<lparr> mspChildrens := stdset_erase pC (mspChildrens k) \<rparr>))
                this (stdset_insert pC cands) = Inr (s', cands')"
        by (subst (asm) reparent_loop.simps) (auto split: sum.splits)
      from 1(1) [OF \<open>mspChildrens (kfs s this) \<noteq> []\<close> sc refl refl refl True cp rec 1(3)]
      have "g (kfs s' p) = g (kfs (upd_kf s1 this (\<lambda>k. k\<lparr> mspChildrens := stdset_erase pC (mspChildrens k) \<rparr>)) p)" .
      also have "\<dots> = g (kfs s1 p)" using 1(3) by (simp add: keeps_treeD)
      also have "\<dots> = g (kfs s p)" by (rule ChangeParent_keeps [OF cp 1(3)])
      finally show ?thesis .
    qed
  qed
qed

lemma SetBadFlag_orphans_keeps:
  assumes "SetBadFlag_orphans s4 this = Inr s5" and "keeps_tree g"
  shows "g (kfs s5 p) = g (kfs s4 p)"
proof -
  have "foldE (\<lambda>s' pKF. if pKF = 0 then Inl NullPointer
                      else ChangeParent s' pKF (mpParent (kfs s' this))) cs s = Inr s5
        \<Longrightarrow> g (kfs s5 p) = g (kfs s p)" for cs s
  proof (induction cs arbitrary: s)
    case Nil
    then show ?case by simp
  next
    case (Cons c cs)
    from Cons.prems obtain s1 where 1: "ChangeParent s c (mpParent (kfs s this)) = Inr s1"
      and 2: "foldE (\<lambda>s' pKF. if pKF = 0 then Inl NullPointer
                      else ChangeParent s' pKF (mpParent (kfs s' this))) cs s1 = Inr s5"
      by (auto split: sum.splits if_splits)
    from Cons.IH [OF 2] ChangeParent_keeps [OF 1 assms(2)] show ?case by simp
  qed
  with assms(1) show ?thesis by (simp add: SetBadFlag_orphans_def)
qed

lemma SetBadFlag_finish_keeps:
  assumes "keeps_tree g" and "keeps_end g"
  shows "g (kfs (SetBadFlag_finish s5 this) p) = g (kfs s5 p)"
  using assms
  by (simp add: SetBadFlag_finish_def Let_def EraseChild_def keeps_treeD keeps_endD)

lemma SetBadFlag_delete_steps:
  assumes "SetBadFlag_delete s this = Inr s'"
  shows "\<exists>s3 s4 cands s5. SetBadFlag_detach s this = Inr s3
      \<and> reparent_loop s3 this (if mpParent (kfs s3 this) \<noteq> 0
                                then stdset_insert (mpParent (kfs s3 this)) [] else []) = Inr (s4, cands)
      \<and> SetBadFlag_orphans s4 this = Inr s5 \<and> s' = SetBadFlag_finish s5 this"
  using assms unfolding SetBadFlag_delete_def
  by (auto split: sum.splits prod.splits)

lemma SetBadFlag_delete_keeps:
  assumes "SetBadFlag_delete s this = Inr s'" and "keeps_cov g" and "keeps_tree g" and "keeps_end g"
  shows "g (kfs s' p) = g (kfs s p)"
proof -
  from SetBadFlag_delete_steps [OF assms(1)] obtain s3 s4 cands s5 where
    1: "SetBadFlag_detach s this = Inr s3" and
    2: "reparent_loop s3 this (if mpParent (kfs s3 this) \<noteq> 0
                                then stdset_insert (mpParent (kfs s3 this)) [] else []) = Inr (s4, cands)" and
    3: "SetBadFlag_orphans s4 this = Inr s5" and 4: "s' = SetBadFlag_finish s5 this"
    by blast
  from SetBadFlag_detach_keeps [OF 1 assms(2)] reparent_loop_keeps [OF 2 assms(3)]
    SetBadFlag_orphans_keeps [OF 3 assms(3)] SetBadFlag_finish_keeps [OF assms(3,4), of s5 this p] 4
  show ?thesis by simp
qed

lemma SetBadFlag_cases:
  assumes "SetBadFlag s this = Inr s'"
  shows "mpMap (kfs s this) \<noteq> 0 \<and>
        ((mnId (kfs s this) = mnInitKFid (maps s (mpMap (kfs s this))) \<and> s' = s)
       \<or> (mnId (kfs s this) \<noteq> mnInitKFid (maps s (mpMap (kfs s this))) \<and> mbNotErase (kfs s this)
           \<and> s' = upd_kf s this (\<lambda>k. k\<lparr> mbToBeErased := True \<rparr>))
       \<or> (mnId (kfs s this) \<noteq> mnInitKFid (maps s (mpMap (kfs s this))) \<and> \<not> mbNotErase (kfs s this)
           \<and> SetBadFlag_delete s this = Inr s'))"
  using assms by (auto simp: SetBadFlag_def split: if_splits)

lemma SetBadFlag_delete_bad_mono:
  assumes "SetBadFlag_delete s this = Inr s'" and "mbBad (kfs s p)"
  shows "mbBad (kfs s' p)"
proof -
  from SetBadFlag_delete_steps [OF assms(1)] obtain s3 s4 cands s5 where
    1: "SetBadFlag_detach s this = Inr s3" and
    2: "reparent_loop s3 this (if mpParent (kfs s3 this) \<noteq> 0
                                then stdset_insert (mpParent (kfs s3 this)) [] else []) = Inr (s4, cands)" and
    3: "SetBadFlag_orphans s4 this = Inr s5" and 4: "s' = SetBadFlag_finish s5 this"
    by blast
  have "mbBad (kfs s5 p) = mbBad (kfs s p)"
    using SetBadFlag_detach_keeps [OF 1, of mbBad p] reparent_loop_keeps [OF 2, of mbBad p]
      SetBadFlag_orphans_keeps [OF 3, of mbBad p] by simp
  with assms(2) 4 show ?thesis
    by (auto simp add: SetBadFlag_finish_def Let_def EraseChild_def)
qed

lemma SetBadFlag_bad_mono:
  assumes "SetBadFlag s this = Inr s'" and "mbBad (kfs s p)"
  shows "mbBad (kfs s' p)"
  using SetBadFlag_cases [OF assms(1)] assms(2)
  by (auto dest: SetBadFlag_delete_bad_mono)

lemma SetErase_bad_mono:
  assumes "SetErase s this = Inr s'" and "mbBad (kfs s p)"
  shows "mbBad (kfs s' p)"
proof -
  let ?s1 = "if mspLoopEdges (kfs s this) = []
             then upd_kf s this (\<lambda>k. k\<lparr> mbNotErase := False \<rparr>) else s"
  from assms(2) have b: "mbBad (kfs ?s1 p)" by auto
  from assms(1) have "s' = ?s1 \<or> SetBadFlag ?s1 this = Inr s'"
    by (auto simp: SetErase_def Let_def split: if_splits)
  with b show ?thesis by (auto dest: SetBadFlag_bad_mono simp del: kfs_upd_kf)
qed

lemma PreSave_kfs:
  assumes "PreSave s this spKF spMP spCam = Inr s'"
  shows "mbBad (kfs s' p) = mbBad (kfs s p)"
proof -
  from assms obtain f where "s' = upd_kf s this f" and "\<And>k. mbBad (f k) = mbBad k"
    unfolding PreSave_def Let_def
    by (auto split: sum.splits)
  then show ?thesis by auto
qed

lemma PostLoad_bad:
  assumes "PostLoad s this mpKFid mpMPid mpCamId = Inr s'"
  shows "mbBad (kfs s' p) = mbBad (kfs s p)"
  using UpdateBestCovisibles_keeps [OF assms [unfolded PostLoad_def], of mbBad p]
  by (auto simp: PostLoad_restore_def SetPose_members_def)

lemma graph_step_bad_mono:
  assumes "graph_step s s'" and "mbBad (kfs s p)"
  shows "mbBad (kfs s' p)"
  using assms
proof (induction rule: graph_step.induct)
  case (step_AddConnection s this pKF w s')
  with AddConnection_keeps [OF step_AddConnection.hyps, of mbBad p] show ?case by simp
next
  case (step_EraseConnection s this pKF s')
  with EraseConnection_keeps [OF step_EraseConnection.hyps, of mbBad p] show ?case by simp
next
  case (step_UpdateBestCovisibles s this s')
  with UpdateBestCovisibles_keeps [OF step_UpdateBestCovisibles.hyps, of mbBad p] show ?case by simp
next
  case (step_UpdateConnections s this upParent s')
  with UpdateConnections_keeps [OF step_UpdateConnections.hyps, of mbBad p] show ?case by simp
next
  case (step_AddChild s this pKF)
  then show ?case by (auto simp add: AddChild_def)
next
  case (step_EraseChild s this pKF)
  then show ?case by (auto simp add: EraseChild_def)
next
  case (step_ChangeParent s this pKF s')
  with ChangeParent_keeps [OF step_ChangeParent.hyps, of mbBad p] show ?case by simp
next
  case (step_SetNotErase s this)
  then show ?case by (auto simp add: SetNotErase_def)
next
  case (step_AddLoopEdge s this pKF)
  then show ?case by (auto simp add: AddLoopEdge_def)
next
  case (step_AddMergeEdge s this pKF)
  then show ?case by (auto simp add: AddMergeEdge_def)
next
  case (step_SetBadFlag s this s')
  then show ?case by (auto dest: SetBadFlag_bad_mono)
next
  case (step_SetErase s this s')
  then show ?case by (auto dest: SetErase_bad_mono)
next
  case (step_SetPose s this Tcw)
  then show ?case by (auto simp add: SetPose_def SetPose_members_def)
next
  case (step_PreSave s this spKF spMP spCam s')
  with PreSave_kfs [OF step_PreSave.hyps, of p] show ?case by simp
next
  case (step_PostLoad s this mpKFid mpMPid mpCamId s')
  with PostLoad_bad [OF step_PostLoad.hyps, of p] show ?case by simp
qed

lemma graph_steps_bad_mono:
  assumes "graph_step\<^sup>*\<^sup>* s s'" and "mbBad (kfs s p)"
  shows "mbBad (kfs s' p)"
  using assms by (induction rule: rtranclp_induct) (auto dest: graph_step_bad_mono)

lemma EraseConnection_absent:
  assumes "EraseConnection s X K = Inr s'"
  shows "map_of (mConnectedKeyFrameWeights (kfs s' X)) K = None"
  using EraseConnection_cases [OF assms]
proof
  assume "s' = s \<and> \<not> stdmap_count (mConnectedKeyFrameWeights (kfs s X)) K"
  then show ?thesis by (simp add: stdmap_count_def)
next
  assume "UpdateBestCovisibles
      (upd_kf s X (\<lambda>k. k\<lparr> mConnectedKeyFrameWeights :=
         stdmap_erase K (mConnectedKeyFrameWeights (kfs s X)) \<rparr>)) X = Inr s'"
  from UpdateBestCovisibles_weights [OF this, of X] show ?thesis by simp
qed

lemma EraseConnection_absent_mono:
  assumes "EraseConnection s X K = Inr s'"
    and "map_of (mConnectedKeyFrameWeights (kfs s p)) K = None"
  shows "map_of (mConnectedKeyFrameWeights (kfs s' p)) K = None"
proof (cases "p = X")
  case True
  with EraseConnection_absent [OF assms(1)] show ?thesis by simp
next
  case False
  with EraseConnection_other [OF assms(1)] assms(2) show ?thesis by simp
qed

lemma EraseConnection_ordered:
  assumes "EraseConnection s X K = Inr s'"
    and "K \<notin> set (mvpOrderedConnectedKeyFrames (kfs s X))
         \<or> stdmap_count (mConnectedKeyFrameWeights (kfs s X)) K"
  shows "K \<notin> set (mvpOrderedConnectedKeyFrames (kfs s' X))"
  using EraseConnection_cases [OF assms(1)]
proof
  assume "s' = s \<and> \<not> stdmap_count (mConnectedKeyFrameWeights (kfs s X)) K"
  with assms(2) show ?thesis by simp
next
  assume "UpdateBestCovisibles
      (upd_kf s X (\<lambda>k. k\<lparr> mConnectedKeyFrameWeights :=
         stdmap_erase K (mConnectedKeyFrameWeights (kfs s X)) \<rparr>)) X = Inr s'"
  from UpdateBestCovisibles_result [OF this] show ?thesis
    by (auto simp: stdmap_count_def)
qed

lemma EraseConnection_ordered_mono:
  assumes "EraseConnection s X K = Inr s'"
    and "K \<notin> set (mvpOrderedConnectedKeyFrames (kfs s p))"
  shows "K \<notin> set (mvpOrderedConnectedKeyFrames (kfs s' p))"
proof (cases "p = X")
  case True
  with EraseConnection_ordered [OF assms(1)] assms(2) show ?thesis by simp
next
  case False
  with EraseConnection_other [OF assms(1)] assms(2) show ?thesis by simp
qed

lemma foldE_EraseConnection_absent:
  "foldE (\<lambda>s' pKF. if pKF = 0 then Inl NullPointer else EraseConnection s' pKF K) ps s = Inr s1 \<Longrightarrow>
   (\<forall>B \<in> set ps. map_of (mConnectedKeyFrameWeights (kfs s1 B)) K = None)
   \<and> (\<forall>p. map_of (mConnectedKeyFrameWeights (kfs s p)) K = None
           \<longrightarrow> map_of (mConnectedKeyFrameWeights (kfs s1 p)) K = None)"
proof (induction ps arbitrary: s)
  case Nil
  then show ?case by simp
next
  case (Cons q ps)
  from Cons.prems obtain s2 where 1: "EraseConnection s q K = Inr s2"
    and 2: "foldE (\<lambda>s' pKF. if pKF = 0 then Inl NullPointer else EraseConnection s' pKF K) ps s2 = Inr s1"
    by (auto split: sum.splits if_splits)
  note ih = Cons.IH [OF 2]
  from ih EraseConnection_absent [OF 1]
  have a: "map_of (mConnectedKeyFrameWeights (kfs s1 q)) K = None" by blast
  from ih EraseConnection_absent_mono [OF 1]
  have b: "\<forall>p. map_of (mConnectedKeyFrameWeights (kfs s p)) K = None
           \<longrightarrow> map_of (mConnectedKeyFrameWeights (kfs s1 p)) K = None" by blast
  from a b ih show ?case by simp
qed

lemma foldE_EraseConnection_ordered:
  "foldE (\<lambda>s' pKF. if pKF = 0 then Inl NullPointer else EraseConnection s' pKF K) ps s = Inr s1 \<Longrightarrow>
   (\<forall>B \<in> set ps. (K \<notin> set (mvpOrderedConnectedKeyFrames (kfs s B))
                      \<or> stdmap_count (mConnectedKeyFrameWeights (kfs s B)) K)
        \<longrightarrow> K \<notin> set (mvpOrderedConnectedKeyFrames (kfs s1 B)))
   \<and> (\<forall>p. K \<notin> set (mvpOrderedConnectedKeyFrames (kfs s p))
           \<longrightarrow> K \<notin> set (mvpOrderedConnectedKeyFrames (kfs s1 p)))"
proof (induction ps arbitrary: s)
  case Nil
  then show ?case by simp
next
  case (Cons q ps)
  from Cons.prems obtain s2 where 1: "EraseConnection s q K = Inr s2"
    and 2: "foldE (\<lambda>s' pKF. if pKF = 0 then Inl NullPointer else EraseConnection s' pKF K) ps s2 = Inr s1"
    by (auto split: sum.splits if_splits)
  note ih = Cons.IH [OF 2]
  have m: "\<forall>p. K \<notin> set (mvpOrderedConnectedKeyFrames (kfs s p))
           \<longrightarrow> K \<notin> set (mvpOrderedConnectedKeyFrames (kfs s1 p))"
    using ih EraseConnection_ordered_mono [OF 1] by blast
  have "K \<notin> set (mvpOrderedConnectedKeyFrames (kfs s1 B))"
    if B: "B \<in> set (q # ps)" and c: "K \<notin> set (mvpOrderedConnectedKeyFrames (kfs s B))
                      \<or> stdmap_count (mConnectedKeyFrameWeights (kfs s B)) K" for B
  proof (cases "B = q")
    case True
    with EraseConnection_ordered [OF 1] c have "K \<notin> set (mvpOrderedConnectedKeyFrames (kfs s2 B))"
      by simp
    with ih show ?thesis by blast
  next
    case False
    with B have Bp: "B \<in> set ps" by simp
    from False EraseConnection_other [OF 1, of B] have "kfs s2 B = kfs s B" by simp
    with c ih Bp show ?thesis by simp
  qed
  with m show ?case by blast
qed

lemma SetBadFlag_delete_detached:
  assumes "SetBadFlag_delete s K = Inr s'"
    and "B \<in> fst ` set (mConnectedKeyFrameWeights (kfs s K))"
  shows "\<not> stdmap_count (mConnectedKeyFrameWeights (kfs s' B)) K"
    and "set (mvpOrderedConnectedKeyFrames (kfs s B)) \<subseteq> fst ` set (mConnectedKeyFrameWeights (kfs s B))
         \<Longrightarrow> K \<notin> set (mvpOrderedConnectedKeyFrames (kfs s' B))"
proof -
  from SetBadFlag_delete_steps [OF assms(1)] obtain s3 s4 cands s5 where
    1: "SetBadFlag_detach s K = Inr s3" and
    2: "reparent_loop s3 K (if mpParent (kfs s3 K) \<noteq> 0
                                then stdset_insert (mpParent (kfs s3 K)) [] else []) = Inr (s4, cands)" and
    3: "SetBadFlag_orphans s4 K = Inr s5" and 4: "s' = SetBadFlag_finish s5 K"
    by blast
  have w: "mConnectedKeyFrameWeights (kfs s' B) = mConnectedKeyFrameWeights (kfs s3 B)"
    using reparent_loop_keeps [OF 2, of mConnectedKeyFrameWeights B]
      SetBadFlag_orphans_keeps [OF 3, of mConnectedKeyFrameWeights B]
      SetBadFlag_finish_keeps [of mConnectedKeyFrameWeights s5 K B] 4 by simp
  have o: "mvpOrderedConnectedKeyFrames (kfs s' B) = mvpOrderedConnectedKeyFrames (kfs s3 B)"
    using reparent_loop_keeps [OF 2, of mvpOrderedConnectedKeyFrames B]
      SetBadFlag_orphans_keeps [OF 3, of mvpOrderedConnectedKeyFrames B]
      SetBadFlag_finish_keeps [of mvpOrderedConnectedKeyFrames s5 K B] 4 by simp
  from SetBadFlag_detach_result [OF 1] obtain s1 where
    f: "foldE (\<lambda>s' pKF. if pKF = 0 then Inl NullPointer else EraseConnection s' pKF K)
               (map fst (mConnectedKeyFrameWeights (kfs s K))) s = Inr s1"
    and k3: "kfs s3 = (kfs s1)(K := (kfs s1 K)\<lparr> mConnectedKeyFrameWeights := [],
                                                  mvpOrderedConnectedKeyFrames := [] \<rparr>)"
    by blast
  from assms(2) have Bin: "B \<in> set (map fst (mConnectedKeyFrameWeights (kfs s K)))" by simp
  from foldE_EraseConnection_absent [OF f] Bin
  have "map_of (mConnectedKeyFrameWeights (kfs s1 B)) K = None" by blast
  with k3 have "map_of (mConnectedKeyFrameWeights (kfs s3 B)) K = None" by simp
  with w show "\<not> stdmap_count (mConnectedKeyFrameWeights (kfs s' B)) K"
    by (simp add: stdmap_count_def)
  assume "set (mvpOrderedConnectedKeyFrames (kfs s B)) \<subseteq> fst ` set (mConnectedKeyFrameWeights (kfs s B))"
  then have "K \<notin> set (mvpOrderedConnectedKeyFrames (kfs s B))
                      \<or> stdmap_count (mConnectedKeyFrameWeights (kfs s B)) K"
    by (auto simp: stdmap_count_def map_of_eq_None_iff)
  with foldE_EraseConnection_ordered [OF f] Bin
  have "K \<notin> set (mvpOrderedConnectedKeyFrames (kfs s1 B))" by blast
  with k3 have "K \<notin> set (mvpOrderedConnectedKeyFrames (kfs s3 B))" by simp
  with o show "K \<notin> set (mvpOrderedConnectedKeyFrames (kfs s' B))" by simp
qed

lemma UpdateBestCovisibles_no_bad:
  assumes "UpdateBestCovisibles s X = Inr s'"
  shows "\<forall>q \<in> set (GetVectorCovisibleKeyFrames s' X). \<not> isBad s' q"
proof -
  have "isBad s' q = isBad s q" for q
    using UpdateBestCovisibles_keeps [OF assms, of mbBad q] by (simp add: isBad_def)
  with UpdateBestCovisibles_result [OF assms] show ?thesis
    by (auto simp: GetVectorCovisibleKeyFrames_def)
qed

text \<open>
  C4, amended: the bad flag is monotone, no operation of the keyframe graph resets
  it. After SetBadFlag has completed the deletion of a keyframe K, K is bad and is
  absent from the weight map of every keyframe that K's own weight map listed, and
  from that keyframe's ordered vector when the vector held only keys of its weight
  map. Right after UpdateBestCovisibles on a keyframe its ordered vector holds no bad
  keyframe.
\<close>

theorem bad_flag_monotone_and_detached:
  "(graph_step\<^sup>*\<^sup>* s s' \<and> mbBad (kfs s p) \<longrightarrow> mbBad (kfs s' p))
   \<and> (SetBadFlag t K = Inr t' \<and> mnId (kfs t K) \<noteq> mnInitKFid (maps t (mpMap (kfs t K)))
        \<and> \<not> mbNotErase (kfs t K) \<longrightarrow>
        mbBad (kfs t' K)
        \<and> (\<forall>B \<in> fst ` set (mConnectedKeyFrameWeights (kfs t K)).
              \<not> stdmap_count (mConnectedKeyFrameWeights (kfs t' B)) K
              \<and> (set (mvpOrderedConnectedKeyFrames (kfs t B)) \<subseteq> fst ` set (mConnectedKeyFrameWeights (kfs t B))
                   \<longrightarrow> K \<notin> set (mvpOrderedConnectedKeyFrames (kfs t' B)))))
   \<and> (UpdateBestCovisibles u X = Inr u' \<longrightarrow>
        (\<forall>q \<in> set (GetVectorCovisibleKeyFrames u' X). \<not> isBad u' q))"
proof (intro conjI impI)
  assume "graph_step\<^sup>*\<^sup>* s s' \<and> mbBad (kfs s p)"
  then show "mbBad (kfs s' p)" by (auto dest: graph_steps_bad_mono)
next
  assume a: "SetBadFlag t K = Inr t' \<and> mnId (kfs t K) \<noteq> mnInitKFid (maps t (mpMap (kfs t K)))
        \<and> \<not> mbNotErase (kfs t K)"
  with SetBadFlag_cases [of t K t'] have d: "SetBadFlag_delete t K = Inr t'" by auto
  then show "mbBad (kfs t' K)" by (rule SetBadFlag_delete_bad)
  show "\<forall>B \<in> fst ` set (mConnectedKeyFrameWeights (kfs t K)).
              \<not> stdmap_count (mConnectedKeyFrameWeights (kfs t' B)) K
              \<and> (set (mvpOrderedConnectedKeyFrames (kfs t B)) \<subseteq> fst ` set (mConnectedKeyFrameWeights (kfs t B))
                   \<longrightarrow> K \<notin> set (mvpOrderedConnectedKeyFrames (kfs t' B)))"
    using SetBadFlag_delete_detached [OF d] by blast
next
  assume "UpdateBestCovisibles u X = Inr u'"
  then show "\<forall>q \<in> set (GetVectorCovisibleKeyFrames u' X). \<not> isBad u' q"
    by (rule UpdateBestCovisibles_no_bad)
qed

text \<open>
  C4, as stated, fails. In \<open>w_asym\<close> keyframe 2 lists keyframe 3 in its weight map and
  in its ordered vector, while keyframe 3 lists only keyframe 4 (this is the state
  UpdateConnections on keyframe 3 leaves, once the landmarks it shared with keyframe
  2 are gone). SetBadFlag on keyframe 3 tells keyframe 4 only: afterwards keyframe 3
  is bad and is still in the weight map of keyframe 2, and the ordered-covisible
  queries on keyframe 2 return it.
\<close>

lemma w_asym_reached:
  "\<not> isl (UpdateConnections w_stale 3 True) \<and>
   (\<forall>p \<in> {1, 2, 3, 4}. kfs (projr (UpdateConnections w_stale 3 True)) p = kfs w_asym p)"
  by code_simp

theorem SetBadFlag_leaves_stale_neighbour:
  "\<not> isl (SetBadFlag w_asym 3) \<and>
   mbBad (kfs (projr (SetBadFlag w_asym 3)) 3) \<and>
   stdmap_count (mConnectedKeyFrameWeights (kfs (projr (SetBadFlag w_asym 3)) 2)) 3 \<and>
   GetVectorCovisibleKeyFrames (projr (SetBadFlag w_asym 3)) 2 = [3] \<and>
   GetCovisiblesByWeight (projr (SetBadFlag w_asym 3)) 2 15 = [3]"
  by code_simp

theorem bad_flag_monotone_and_detached_witness:
  "graph_step\<^sup>*\<^sup>* w_culled (SetNotErase (projr (AddConnection w_culled 4 5 9)) 4) \<and>
   mbBad (kfs w_culled 5) \<and>
   mbBad (kfs (SetNotErase (projr (AddConnection w_culled 4 5 9)) 4) 5) \<and>
   \<not> isl (SetBadFlag w_tree 3) \<and>
   mnId (kfs w_tree 3) \<noteq> mnInitKFid (maps w_tree (mpMap (kfs w_tree 3))) \<and>
   \<not> mbNotErase (kfs w_tree 3) \<and>
   mbBad (kfs (projr (SetBadFlag w_tree 3)) 3) \<and>
   \<not> stdmap_count (mConnectedKeyFrameWeights (kfs (projr (SetBadFlag w_tree 3)) 4)) 3 \<and>
   3 \<notin> set (mvpOrderedConnectedKeyFrames (kfs (projr (SetBadFlag w_tree 3)) 4)) \<and>
   \<not> isl (UpdateBestCovisibles w_culled 4) \<and>
   5 \<notin> set (GetVectorCovisibleKeyFrames (projr (UpdateBestCovisibles w_culled 4)) 4)"
proof -
  let ?a = "projr (AddConnection w_culled 4 5 9)"
  let ?d = "projr (SetBadFlag w_tree 3)"
  let ?u = "projr (UpdateBestCovisibles w_culled 4)"
  have "\<not> isl (AddConnection w_culled 4 5 9)" by code_simp
  then have "AddConnection w_culled 4 5 9 = Inr ?a" by simp
  then have "graph_step w_culled ?a" by (rule step_AddConnection)
  moreover have "graph_step ?a (SetNotErase ?a 4)" by (rule step_SetNotErase)
  ultimately have st: "graph_step\<^sup>*\<^sup>* w_culled (SetNotErase ?a 4)" by simp
  have b0: "mbBad (kfs w_culled 5)" by code_simp
  from st b0 bad_flag_monotone_and_detached [where s = w_culled and s' = "SetNotErase ?a 4" and p = 5]
  have b1: "mbBad (kfs (SetNotErase ?a 4) 5)" by blast
  have d0: "\<not> isl (SetBadFlag w_tree 3)" by code_simp
  then have d1: "SetBadFlag w_tree 3 = Inr ?d" by simp
  have d2: "mnId (kfs w_tree 3) \<noteq> mnInitKFid (maps w_tree (mpMap (kfs w_tree 3)))" by code_simp
  have d3: "\<not> mbNotErase (kfs w_tree 3)" by code_simp
  have d4: "4 \<in> fst ` set (mConnectedKeyFrameWeights (kfs w_tree 3))" by code_simp
  have d5: "set (mvpOrderedConnectedKeyFrames (kfs w_tree 4))
            \<subseteq> fst ` set (mConnectedKeyFrameWeights (kfs w_tree 4))" by code_simp
  from d1 d2 d3 d4 d5 bad_flag_monotone_and_detached [where t = w_tree and t' = ?d and K = 3]
  have e: "mbBad (kfs ?d 3) \<and> \<not> stdmap_count (mConnectedKeyFrameWeights (kfs ?d 4)) 3
           \<and> 3 \<notin> set (mvpOrderedConnectedKeyFrames (kfs ?d 4))" by blast
  have u0: "\<not> isl (UpdateBestCovisibles w_culled 4)" by code_simp
  then have u1: "UpdateBestCovisibles w_culled 4 = Inr ?u" by simp
  have u2: "isBad ?u 5" by code_simp
  from u1 u2 bad_flag_monotone_and_detached [where u = w_culled and u' = ?u and X = 4]
  have f: "5 \<notin> set (GetVectorCovisibleKeyFrames ?u 4)" by blast
  from st b0 b1 d0 d2 d3 e u0 f show ?thesis by blast
qed

lemma set_stdmap_set_sorted:
  "sorted_wrt (<) (map fst m) \<Longrightarrow>
   set (stdmap_set k v m) = insert (k, v) {e \<in> set m. fst e \<noteq> k}"
proof (induction m)
  case Nil
  then show ?case by simp
next
  case (Cons e m)
  obtain k' v' where e: "e = (k', v')" by (cases e)
  from Cons.prems e have sm: "sorted_wrt (<) (map fst m)" and lt: "\<forall>x \<in> set m. k' < fst x"
    by auto
  show ?case
  proof (cases "k < k'")
    case True
    with lt e show ?thesis by fastforce
  next
    case False
    show ?thesis
    proof (cases "k = k'")
      case True
      with lt e show ?thesis by fastforce
    next
      case ne: False
      with False e Cons.IH [OF sm] show ?thesis by auto
    qed
  qed
qed

text \<open>Inserting entries whose keys are pairwise different and new.\<close>

lemma fold_stdmap_set_set:
  "sorted_wrt (<) (map fst acc) \<Longrightarrow> distinct (map (\<lambda>e. f (fst e)) xs) \<Longrightarrow>
   (\<forall>e \<in> set xs. f (fst e) \<notin> fst ` set acc) \<Longrightarrow>
   sorted_wrt (<) (map fst (fold (\<lambda>(k, v) m. stdmap_set (f k) v m) xs acc)) \<and>
   set (fold (\<lambda>(k, v) m. stdmap_set (f k) v m) xs acc) = (\<lambda>(k, v). (f k, v)) ` set xs \<union> set acc"
proof (induction xs arbitrary: acc)
  case Nil
  then show ?case by simp
next
  case (Cons x xs)
  obtain k v where x: "x = (k, v)" by (cases x)
  let ?acc = "stdmap_set (f k) v acc"
  have s1: "sorted_wrt (<) (map fst ?acc)" by (rule strict_sorted_stdmap_set [OF Cons.prems(1)])
  from Cons.prems(3) x have new: "f k \<notin> fst ` set acc" by simp
  then have "{e \<in> set acc. fst e \<noteq> f k} = set acc" by force
  with set_stdmap_set_sorted [OF Cons.prems(1), of "f k" v]
  have sa: "set ?acc = insert (f k, v) (set acc)" by simp
  from Cons.prems(2) x have d: "distinct (map (\<lambda>e. f (fst e)) xs)"
    and nk: "\<forall>e \<in> set xs. f (fst e) \<noteq> f k" by (auto simp: image_iff)
  from Cons.prems(3) nk sa have n3: "\<forall>e \<in> set xs. f (fst e) \<notin> fst ` set ?acc" by auto
  from Cons.IH [OF s1 d n3] sa x show ?case by auto
qed

lemma foldE_backup_weights:
  "foldE (\<lambda>b (pKFi, w). if pKFi \<in> set spKF
                            then (if pKFi = 0 then Inl NullPointer
                                  else Inr (stdmap_set (idf pKFi) w b))
                            else Inr b) m acc = Inr bw \<Longrightarrow>
   fst ` set m \<subseteq> set spKF \<Longrightarrow>
   bw = fold (\<lambda>(p, w) b. stdmap_set (idf p) w b) m acc"
proof (induction m arbitrary: acc)
  case Nil
  then show ?case by simp
next
  case (Cons e m)
  obtain p w where e: "e = (p, w)" by (cases e)
  with Cons.prems(2) have "p \<in> set spKF" and sub: "fst ` set m \<subseteq> set spKF" by auto
  with Cons.prems(1) e have
    "foldE (\<lambda>b (pKFi, w). if pKFi \<in> set spKF
                            then (if pKFi = 0 then Inl NullPointer
                                  else Inr (stdmap_set (idf pKFi) w b))
                            else Inr b) m (stdmap_set (idf p) w acc) = Inr bw"
    by (auto split: if_splits)
  from Cons.IH [OF this sub] e show ?case by simp
qed

lemma foldE_backup_ids:
  "foldE (\<lambda>ids pKFi. if pKFi \<in> set spKF
                         then (if pKFi = 0 then Inl NullPointer else Inr (ids @ [idf pKFi]))
                         else Inr ids) ps acc = Inr r \<Longrightarrow>
   set ps \<subseteq> set spKF \<Longrightarrow> r = acc @ map idf ps"
proof (induction ps arbitrary: acc)
  case Nil
  then show ?case by simp
next
  case (Cons p ps)
  from Cons.prems(2) have "p \<in> set spKF" and sub: "set ps \<subseteq> set spKF" by auto
  with Cons.prems(1) have
    "foldE (\<lambda>ids pKFi. if pKFi \<in> set spKF
                         then (if pKFi = 0 then Inl NullPointer else Inr (ids @ [idf pKFi]))
                         else Inr ids) ps (acc @ [idf p]) = Inr r"
    by (auto split: if_splits)
  from Cons.IH [OF this sub] show ?case by simp
qed

lemma set_fold_stdset_insert:
  "set (fold (\<lambda>id cs. stdset_insert (f id) cs) ids acc) = f ` set ids \<union> set acc"
  by (induction ids arbitrary: acc) auto

lemma PreSave_result:
  assumes "PreSave s K spKF spMP spCam = Inr s1"
  shows "\<exists>bw bc bl bm.
      backup_weights s spKF (mConnectedKeyFrameWeights (kfs s K)) = Inr bw \<and>
      backup_ids s spKF (mspChildrens (kfs s K)) = Inr bc \<and>
      backup_ids s spKF (mspLoopEdges (kfs s K)) = Inr bl \<and>
      backup_ids s spKF (mspMergeEdges (kfs s K)) = Inr bm \<and>
      graph_backups (kfs s1 K)
        = (bw, backup_id spKF (\<lambda>p. mnId (kfs s p)) (mpParent (kfs s K)), bc, bl, bm)"
proof -
  from assms obtain bw where bw: "backup_weights s spKF (mConnectedKeyFrameWeights (kfs s K)) = Inr bw"
    unfolding PreSave_def Let_def by (auto split: sum.splits)
  from assms bw obtain bc where bc: "backup_ids s spKF (mspChildrens (kfs s K)) = Inr bc"
    unfolding PreSave_def Let_def by (auto split: sum.splits)
  from assms bw bc obtain bl where bl: "backup_ids s spKF (mspLoopEdges (kfs s K)) = Inr bl"
    unfolding PreSave_def Let_def by (auto split: sum.splits)
  from assms bw bc bl obtain bm where bm: "backup_ids s spKF (mspMergeEdges (kfs s K)) = Inr bm"
    unfolding PreSave_def Let_def by (auto split: sum.splits)
  from assms bw bc bl bm have
    "graph_backups (kfs s1 K)
        = (bw, backup_id spKF (\<lambda>p. mnId (kfs s p)) (mpParent (kfs s K)), bc, bl, bm)"
    unfolding PreSave_def Let_def by (auto simp: graph_backups_def)
  with bw bc bl bm show ?thesis by blast
qed

lemma UpdateBestCovisibles_lists:
  assumes "UpdateBestCovisibles s this = Inr s'"
  shows "mvpOrderedConnectedKeyFrames (kfs s' this)
           = rev (map snd (filter (\<lambda>(w, p). \<not> isBad s' p)
               (sort (map (\<lambda>(p, w). (w, p)) (mConnectedKeyFrameWeights (kfs s' this))))))"
    and "mvOrderedWeights (kfs s' this)
           = rev (map fst (filter (\<lambda>(w, p). \<not> isBad s' p)
               (sort (map (\<lambda>(p, w). (w, p)) (mConnectedKeyFrameWeights (kfs s' this))))))"
proof -
  let ?ps = "sort (map (\<lambda>(pKF, w). (w, pKF)) (mConnectedKeyFrameWeights (kfs s this)))"
  from assms obtain r where r: "push_front_not_bad s ?ps ([], []) = Inr r"
    and s': "s' = upd_kf s this (\<lambda>k. k\<lparr> mvpOrderedConnectedKeyFrames := fst r, mvOrderedWeights := snd r \<rparr>)"
    by (auto simp: UpdateBestCovisibles_def Let_def split: sum.splits prod.splits)
  have b: "isBad s' p = isBad s p" for p
    using UpdateBestCovisibles_keeps [OF assms, of mbBad p] by (simp add: isBad_def)
  then have bb: "(\<lambda>(w, p). \<not> isBad s' p) = (\<lambda>(w :: int, p). \<not> isBad s p)" by auto
  have w: "mConnectedKeyFrameWeights (kfs s' this) = mConnectedKeyFrameWeights (kfs s this)"
    by (rule UpdateBestCovisibles_weights [OF assms])
  from push_front_not_bad_eq [OF r] s'
  show "mvpOrderedConnectedKeyFrames (kfs s' this)
           = rev (map snd (filter (\<lambda>(w, p). \<not> isBad s' p)
               (sort (map (\<lambda>(p, w). (w, p)) (mConnectedKeyFrameWeights (kfs s' this))))))"
    and "mvOrderedWeights (kfs s' this)
           = rev (map fst (filter (\<lambda>(w, p). \<not> isBad s' p)
               (sort (map (\<lambda>(p, w). (w, p)) (mConnectedKeyFrameWeights (kfs s' this))))))"
    unfolding w bb by simp_all
qed

lemma PostLoad_restore_graph:
  "mConnectedKeyFrameWeights (PostLoad_restore mpKFid mpMPid mpCamId k)
     = fold (\<lambda>(id, w) m. stdmap_set (stdmap_ptr mpKFid id) w m) (mBackupConnectedKeyFrameIdWeights k) []"
  "mpParent (PostLoad_restore mpKFid mpMPid mpCamId k)
     = (if mBackupParentId k \<ge> 0 then stdmap_ptr mpKFid (nat (mBackupParentId k)) else mpParent k)"
  "mspChildrens (PostLoad_restore mpKFid mpMPid mpCamId k)
     = fold (\<lambda>id cs. stdset_insert (stdmap_ptr mpKFid id) cs) (mvBackupChildrensId k) []"
  "mspLoopEdges (PostLoad_restore mpKFid mpMPid mpCamId k)
     = fold (\<lambda>id cs. stdset_insert (stdmap_ptr mpKFid id) cs) (mvBackupLoopEdgesId k) []"
  "mspMergeEdges (PostLoad_restore mpKFid mpMPid mpCamId k)
     = fold (\<lambda>id cs. stdset_insert (stdmap_ptr mpKFid id) cs) (mvBackupMergeEdgesId k) []"
  by (simp_all add: PostLoad_restore_def SetPose_members_def)

lemma keeps_cov_restored [simp]:
  "keeps_cov mspLoopEdges" "keeps_cov mspMergeEdges"
  by (simp_all add: keeps_cov_def)

text \<open>
  C8: let PreSave run on keyframe K with sets that contain every keyframe it refers
  to, and let PostLoad run on a world whose keyframe K carries the backup members
  PreSave wrote (the same object, or the object rebuilt from the archive, whose
  parent reference is then null), with a dictionary that maps the id of every saved
  keyframe ptr_id to it. Then the restored weight map, parent, children, loop edges
  and merge edges are the original ones, and the ordered vectors are the ones
  UpdateBestCovisibles builds from the restored weight map.
\<close>

theorem PreSave_PostLoad_roundtrip:
  assumes save: "PreSave s K spKF spMP spCam = Inr s1"
    and load: "PostLoad t K mpKFid mpMPid mpCamId = Inr s2"
    and arch: "graph_backups (kfs t K) = graph_backups (kfs s1 K)"
    and par: "mpParent (kfs t K) = mpParent (kfs s K) \<or> mpParent (kfs t K) = 0"
    and refs: "fst ` set (mConnectedKeyFrameWeights (kfs s K)) \<subseteq> set spKF"
      "mpParent (kfs s K) = 0 \<or> mpParent (kfs s K) \<in> set spKF"
      "set (mspChildrens (kfs s K)) \<subseteq> set spKF"
      "set (mspLoopEdges (kfs s K)) \<subseteq> set spKF"
      "set (mspMergeEdges (kfs s K)) \<subseteq> set spKF"
    and dict: "\<forall>p \<in> set spKF. stdmap_ptr mpKFid (mnId (kfs s p)) = p"
    and wf: "distinct (map fst (mConnectedKeyFrameWeights (kfs s K)))"
  shows "map_of (mConnectedKeyFrameWeights (kfs s2 K)) = map_of (mConnectedKeyFrameWeights (kfs s K))
       \<and> mpParent (kfs s2 K) = mpParent (kfs s K)
       \<and> set (mspChildrens (kfs s2 K)) = set (mspChildrens (kfs s K))
       \<and> set (mspLoopEdges (kfs s2 K)) = set (mspLoopEdges (kfs s K))
       \<and> set (mspMergeEdges (kfs s2 K)) = set (mspMergeEdges (kfs s K))
       \<and> mvpOrderedConnectedKeyFrames (kfs s2 K)
           = rev (map snd (filter (\<lambda>(w, p). \<not> isBad s2 p)
               (sort (map (\<lambda>(p, w). (w, p)) (mConnectedKeyFrameWeights (kfs s2 K))))))
       \<and> mvOrderedWeights (kfs s2 K)
           = rev (map fst (filter (\<lambda>(w, p). \<not> isBad s2 p)
               (sort (map (\<lambda>(p, w). (w, p)) (mConnectedKeyFrameWeights (kfs s2 K))))))"
proof -
  let ?idf = "\<lambda>p. mnId (kfs s p)"
  let ?ptr = "stdmap_ptr mpKFid"
  let ?m = "mConnectedKeyFrameWeights (kfs s K)"
  let ?r = "upd_kf t K (PostLoad_restore mpKFid mpMPid mpCamId)"
  from load have ubc: "UpdateBestCovisibles ?r K = Inr s2" by (simp add: PostLoad_def)
  from PreSave_result [OF save] obtain bw bc bl bm where
    bw: "backup_weights s spKF ?m = Inr bw" and
    bc: "backup_ids s spKF (mspChildrens (kfs s K)) = Inr bc" and
    bl: "backup_ids s spKF (mspLoopEdges (kfs s K)) = Inr bl" and
    bm: "backup_ids s spKF (mspMergeEdges (kfs s K)) = Inr bm" and
    gb: "graph_backups (kfs s1 K)
        = (bw, backup_id spKF ?idf (mpParent (kfs s K)), bc, bl, bm)"
    by blast
  from arch gb have tb: "mBackupConnectedKeyFrameIdWeights (kfs t K) = bw"
    "mBackupParentId (kfs t K) = backup_id spKF ?idf (mpParent (kfs s K))"
    "mvBackupChildrensId (kfs t K) = bc" "mvBackupLoopEdgesId (kfs t K) = bl"
    "mvBackupMergeEdgesId (kfs t K) = bm"
    by (simp_all add: graph_backups_def)
  have ptr_id: "\<And>p. p \<in> set spKF \<Longrightarrow> ?ptr (?idf p) = p" using dict by blast
  have inj: "inj_on ?idf (set spKF)"
    by (rule inj_on_inverseI [where g = ?ptr]) (rule ptr_id)
  \<comment> \<open>the weight map\<close>
  have bw_fold: "bw = fold (\<lambda>(p, w) b. stdmap_set (?idf p) w b) ?m []"
    using bw refs(1) unfolding backup_weights_def by (rule foldE_backup_weights)
  have d1: "distinct (map (\<lambda>e. ?idf (fst e)) ?m)"
  proof -
    have "inj_on ?idf (set (map fst ?m))"
      using refs(1) inj by (auto intro: inj_on_subset)
    with wf have "distinct (map ?idf (map fst ?m))"
      by (subst distinct_map) blast
    then show ?thesis by (simp add: comp_def)
  qed
  from fold_stdmap_set_set [of "[]" ?idf ?m, OF _ d1] bw_fold
  have bws: "sorted_wrt (<) (map fst bw)"
    and bwset: "set bw = (\<lambda>(p, w). (?idf p, w)) ` set ?m" by simp_all
  have d2: "distinct (map (\<lambda>e. ?ptr (fst e)) bw)"
  proof -
    from bws have "distinct (map fst bw)" by (simp add: strict_sorted_iff)
    moreover have "inj_on ?ptr (fst ` set bw)"
    proof (rule inj_onI)
      fix a b
      assume "a \<in> fst ` set bw" "b \<in> fst ` set bw" and e: "?ptr a = ?ptr b"
      with bwset obtain p q where pq: "p \<in> fst ` set ?m" "q \<in> fst ` set ?m"
        and ab: "a = ?idf p" "b = ?idf q"
        by force
      from pq refs(1) have "p \<in> set spKF" "q \<in> set spKF" by blast+
      then have "?ptr (?idf p) = p" "?ptr (?idf q) = q" by (simp_all add: ptr_id)
      with e ab show "a = b" by simp
    qed
    then have "inj_on ?ptr (set (map fst bw))" by simp
    ultimately have "distinct (map ?ptr (map fst bw))" by (subst distinct_map) blast
    then show ?thesis by (simp add: comp_def)
  qed
  let ?rm = "fold (\<lambda>(id, w) m. stdmap_set (?ptr id) w m) bw []"
  from fold_stdmap_set_set [of "[]" ?ptr bw, OF _ d2]
  have rms: "sorted_wrt (<) (map fst ?rm)"
    and rmset: "set ?rm = (\<lambda>(id, w). (?ptr id, w)) ` set bw" by simp_all
  have "set ?rm = set ?m"
  proof -
    have "(\<lambda>(id, w). (?ptr id, w)) ` set bw = (\<lambda>(p, w). (?ptr (?idf p), w)) ` set ?m"
      unfolding bwset by (force simp: image_iff)
    also have "\<dots> = set ?m"
      using refs(1) ptr_id by (force simp: image_iff)
    finally show ?thesis using rmset by simp
  qed
  moreover from rms have "distinct (map fst ?rm)" by (simp add: strict_sorted_iff)
  ultimately have mo: "map_of ?rm = map_of ?m"
    using wf by (simp add: map_of_inject_set)
  have w2: "mConnectedKeyFrameWeights (kfs s2 K) = ?rm"
    using UpdateBestCovisibles_weights [OF ubc, of K] by (simp add: PostLoad_restore_graph tb)
  \<comment> \<open>the parent\<close>
  have p2: "mpParent (kfs s2 K) = mpParent (kfs s K)"
  proof -
    have "mpParent (kfs s2 K) = mpParent (kfs ?r K)"
      by (rule UpdateBestCovisibles_keeps [OF ubc]) simp
    also have "\<dots> = mpParent (kfs s K)"
      using refs(2) par ptr_id [of "mpParent (kfs s K)"]
      by (auto simp: PostLoad_restore_graph tb backup_id_def)
    finally show ?thesis .
  qed
  \<comment> \<open>children, loop edges, merge edges\<close>
  have ids: "bc = map ?idf (mspChildrens (kfs s K))" "bl = map ?idf (mspLoopEdges (kfs s K))"
    "bm = map ?idf (mspMergeEdges (kfs s K))"
    using foldE_backup_ids [OF bc [unfolded backup_ids_def] refs(3)]
      foldE_backup_ids [OF bl [unfolded backup_ids_def] refs(4)]
      foldE_backup_ids [OF bm [unfolded backup_ids_def] refs(5)] by simp_all
  have img: "\<And>A. A \<subseteq> set spKF \<Longrightarrow> ?ptr ` ?idf ` A = A"
    using ptr_id by (force simp: image_iff)
  have c2: "set (mspChildrens (kfs s2 K)) = set (mspChildrens (kfs s K))"
  proof -
    have "mspChildrens (kfs s2 K) = mspChildrens (kfs ?r K)"
      by (rule UpdateBestCovisibles_keeps [OF ubc]) simp
    then show ?thesis
      by (simp add: PostLoad_restore_graph tb ids set_fold_stdset_insert img [OF refs(3)])
  qed
  have l2: "set (mspLoopEdges (kfs s2 K)) = set (mspLoopEdges (kfs s K))"
  proof -
    have "mspLoopEdges (kfs s2 K) = mspLoopEdges (kfs ?r K)"
      by (rule UpdateBestCovisibles_keeps [OF ubc]) simp
    then show ?thesis
      by (simp add: PostLoad_restore_graph tb ids set_fold_stdset_insert img [OF refs(4)])
  qed
  have m2: "set (mspMergeEdges (kfs s2 K)) = set (mspMergeEdges (kfs s K))"
  proof -
    have "mspMergeEdges (kfs s2 K) = mspMergeEdges (kfs ?r K)"
      by (rule UpdateBestCovisibles_keeps [OF ubc]) simp
    then show ?thesis
      by (simp add: PostLoad_restore_graph tb ids set_fold_stdset_insert img [OF refs(5)])
  qed
  from mo w2 p2 c2 l2 m2 UpdateBestCovisibles_lists [OF ubc] show ?thesis by simp
qed

theorem PreSave_PostLoad_roundtrip_witness:
  "PreSave w_tree 3 [1, 2, 3, 4, 5] [] [] = Inr w_saved
   \<and> \<not> isl (PostLoad w_archived 3 ids_tree [] [])
   \<and> graph_backups (kfs w_saved 3) = ([(1, 20), (3, 30), (4, 25)], 1, [3, 4], [], [])
   \<and> graph_backups (kfs w_archived 3) = graph_backups (kfs w_saved 3)
   \<and> mConnectedKeyFrameWeights (kfs w_archived 3) = []
   \<and> mpParent (kfs w_archived 3) = 0
   \<and> mspChildrens (kfs w_archived 3) = []
   \<and> mConnectedKeyFrameWeights (kfs w_tree 3) = [(2, 20), (4, 30), (5, 25)]
   \<and> mpParent (kfs w_tree 3) = 2
   \<and> mspChildrens (kfs w_tree 3) = [4, 5]
   \<and> mspLoopEdges (kfs w_tree 3) = []
   \<and> mspMergeEdges (kfs w_tree 3) = []
   \<and> stdmap_ptr ids_tree (mnId (kfs w_tree 1)) = 1
   \<and> stdmap_ptr ids_tree (mnId (kfs w_tree 2)) = 2
   \<and> stdmap_ptr ids_tree (mnId (kfs w_tree 3)) = 3
   \<and> stdmap_ptr ids_tree (mnId (kfs w_tree 4)) = 4
   \<and> stdmap_ptr ids_tree (mnId (kfs w_tree 5)) = 5
   \<and> map_of (mConnectedKeyFrameWeights (kfs (projr (PostLoad w_archived 3 ids_tree [] [])) 3))
       = map_of (mConnectedKeyFrameWeights (kfs w_tree 3))
   \<and> mpParent (kfs (projr (PostLoad w_archived 3 ids_tree [] [])) 3) = mpParent (kfs w_tree 3)
   \<and> set (mspChildrens (kfs (projr (PostLoad w_archived 3 ids_tree [] [])) 3))
       = set (mspChildrens (kfs w_tree 3))
   \<and> set (mspLoopEdges (kfs (projr (PostLoad w_archived 3 ids_tree [] [])) 3))
       = set (mspLoopEdges (kfs w_tree 3))
   \<and> set (mspMergeEdges (kfs (projr (PostLoad w_archived 3 ids_tree [] [])) 3))
       = set (mspMergeEdges (kfs w_tree 3))
   \<and> mvpOrderedConnectedKeyFrames (kfs (projr (PostLoad w_archived 3 ids_tree [] [])) 3) = [4, 5, 2]
   \<and> mvOrderedWeights (kfs (projr (PostLoad w_archived 3 ids_tree [] [])) 3) = [30, 25, 20]"
proof -
  let ?s2 = "projr (PostLoad w_archived 3 ids_tree [] [])"
  have "\<not> isl (PreSave w_tree 3 [1, 2, 3, 4, 5] [] [])" by code_simp
  then have save: "PreSave w_tree 3 [1, 2, 3, 4, 5] [] [] = Inr w_saved"
    by (simp add: w_saved_def)
  have l0: "\<not> isl (PostLoad w_archived 3 ids_tree [] [])" by code_simp
  then have load: "PostLoad w_archived 3 ids_tree [] [] = Inr ?s2" by simp
  have gb: "graph_backups (kfs w_saved 3) = ([(1, 20), (3, 30), (4, 25)], 1, [3, 4], [], [])"
    by code_simp
  have arch: "graph_backups (kfs w_archived 3) = graph_backups (kfs w_saved 3)" by code_simp
  have a1: "mConnectedKeyFrameWeights (kfs w_archived 3) = []" by code_simp
  have a2: "mpParent (kfs w_archived 3) = 0" by code_simp
  have a3: "mspChildrens (kfs w_archived 3) = []" by code_simp
  have o1: "mConnectedKeyFrameWeights (kfs w_tree 3) = [(2, 20), (4, 30), (5, 25)]" by code_simp
  have o2: "mpParent (kfs w_tree 3) = 2" by code_simp
  have o3: "mspChildrens (kfs w_tree 3) = [4, 5]" by code_simp
  have o4: "mspLoopEdges (kfs w_tree 3) = []" by code_simp
  have o5: "mspMergeEdges (kfs w_tree 3) = []" by code_simp
  have d: "stdmap_ptr ids_tree (mnId (kfs w_tree 1)) = 1"
    "stdmap_ptr ids_tree (mnId (kfs w_tree 2)) = 2"
    "stdmap_ptr ids_tree (mnId (kfs w_tree 3)) = 3"
    "stdmap_ptr ids_tree (mnId (kfs w_tree 4)) = 4"
    "stdmap_ptr ids_tree (mnId (kfs w_tree 5)) = 5"
    by code_simp+
  have r1: "mvpOrderedConnectedKeyFrames (kfs ?s2 3) = [4, 5, 2]" by code_simp
  have r2: "mvOrderedWeights (kfs ?s2 3) = [30, 25, 20]" by code_simp
  have "map_of (mConnectedKeyFrameWeights (kfs ?s2 3)) = map_of (mConnectedKeyFrameWeights (kfs w_tree 3))
     \<and> mpParent (kfs ?s2 3) = mpParent (kfs w_tree 3)
     \<and> set (mspChildrens (kfs ?s2 3)) = set (mspChildrens (kfs w_tree 3))
     \<and> set (mspLoopEdges (kfs ?s2 3)) = set (mspLoopEdges (kfs w_tree 3))
     \<and> set (mspMergeEdges (kfs ?s2 3)) = set (mspMergeEdges (kfs w_tree 3))"
    using PreSave_PostLoad_roundtrip [OF save load arch] a2 d
    by (simp add: o1 o2 o3 o4 o5)
  with save l0 gb arch a1 a2 a3 o1 o2 o3 o4 o5 d r1 r2 show ?thesis by blast
qed

subsection \<open>The cached ordering, keyframe by keyframe and in every world that is built\<close>

lemma cache_kept_refl [simp]: "cache_kept k k"
  by (simp add: cache_kept_def)

lemma cache_kept_same:
  "mvpOrderedConnectedKeyFrames k' = mvpOrderedConnectedKeyFrames k \<Longrightarrow>
   mvOrderedWeights k' = mvOrderedWeights k \<Longrightarrow> cache_kept k k'"
  by (simp add: cache_kept_def)

lemma cache_kept_trans: "cache_kept k k1 \<Longrightarrow> cache_kept k1 k2 \<Longrightarrow> cache_kept k k2"
  by (auto simp: cache_kept_def ordered_inv_def)

lemma cache_kept_ordered: "cache_kept k k' \<Longrightarrow> ordered_inv k \<Longrightarrow> ordered_inv k'"
  by (auto simp: cache_kept_def ordered_inv_def)

lemma UpdateBestCovisibles_ordered:
  assumes "UpdateBestCovisibles s this = Inr s'"
  shows "ordered_inv (kfs s' this)"
  using UpdateBestCovisibles_result [OF assms] by (auto simp: ordered_inv_def)

lemma UpdateBestCovisibles_cache:
  assumes "UpdateBestCovisibles s this = Inr s'"
  shows "cache_kept (kfs s p) (kfs s' p)"
proof (cases "p = this")
  case True
  with UpdateBestCovisibles_ordered [OF assms] show ?thesis by (simp add: cache_kept_def)
next
  case False
  with UpdateBestCovisibles_other [OF assms] show ?thesis by simp
qed

lemma AddConnection_cache:
  assumes "AddConnection s this pKF w = Inr s'"
  shows "cache_kept (kfs s p) (kfs s' p)"
  using AddConnection_cases [OF assms]
proof
  assume "s' = s"
  then show ?thesis by simp
next
  let ?s1 = "upd_kf s this (\<lambda>k. k\<lparr> mConnectedKeyFrameWeights :=
         stdmap_set pKF w (mConnectedKeyFrameWeights (kfs s this)) \<rparr>)"
  assume "UpdateBestCovisibles ?s1 this = Inr s'"
  then have "cache_kept (kfs ?s1 p) (kfs s' p)" by (rule UpdateBestCovisibles_cache)
  moreover have "cache_kept (kfs s p) (kfs ?s1 p)" by (simp add: cache_kept_same)
  ultimately show ?thesis by (rule cache_kept_trans [rotated])
qed

lemma EraseConnection_cache:
  assumes "EraseConnection s this pKF = Inr s'"
  shows "cache_kept (kfs s p) (kfs s' p)"
  using EraseConnection_cases [OF assms]
proof
  assume "s' = s \<and> \<not> stdmap_count (mConnectedKeyFrameWeights (kfs s this)) pKF"
  then show ?thesis by simp
next
  let ?s1 = "upd_kf s this (\<lambda>k. k\<lparr> mConnectedKeyFrameWeights :=
         stdmap_erase pKF (mConnectedKeyFrameWeights (kfs s this)) \<rparr>)"
  assume "UpdateBestCovisibles ?s1 this = Inr s'"
  then have "cache_kept (kfs ?s1 p) (kfs s' p)" by (rule UpdateBestCovisibles_cache)
  moreover have "cache_kept (kfs s p) (kfs ?s1 p)" by (simp add: cache_kept_same)
  ultimately show ?thesis by (rule cache_kept_trans [rotated])
qed

lemma promote_loop_cache:
  "promote_loop this cs (s, nmax, pKFmax, vPairs) = Inr (s', nmax', pKFmax', vPairs') \<Longrightarrow>
   cache_kept (kfs s p) (kfs s' p)"
proof (induction cs arbitrary: s nmax pKFmax vPairs)
  case Nil
  then show ?case by simp
next
  case (Cons c cs)
  obtain pKFi n where c: "c = (pKFi, n)" by (cases c)
  from promote_loop_Cons [OF Cons.prems(1) [unfolded c]] show ?case
  proof (elim disjE conjE exE)
    fix s1
    assume 1: "AddConnection s pKFi this n = Inr s1"
      and 2: "promote_loop this cs (s1, (if n > nmax then n else nmax),
            (if n > nmax then pKFi else pKFmax), vPairs @ [(n, pKFi)]) = Inr (s', nmax', pKFmax', vPairs')"
    from AddConnection_cache [OF 1] Cons.IH [OF 2] show ?thesis by (rule cache_kept_trans)
  next
    assume "promote_loop this cs (s, (if n > nmax then n else nmax),
            (if n > nmax then pKFi else pKFmax), vPairs) = Inr (s', nmax', pKFmax', vPairs')"
    from Cons.IH [OF this] show ?thesis .
  qed
qed

lemma promote_max_cache:
  assumes "promote_max this (s, nmax, pKFmax, vPairs) = Inr (s', vPairs')"
  shows "cache_kept (kfs s p) (kfs s' p)"
  using promote_max_cases [OF assms] by (auto dest: AddConnection_cache)

lemma stored_ordered: "ordered_inv (kfs (stored s this KFcounter vPairs) this)"
proof -
  have "sorted (map fst (sort vPairs))"
    by (rule sorted_fst_of_sorted_pairs) simp
  then have "sorted_wrt (\<lambda>a b. a \<ge> b) (rev (map fst (sort vPairs)))"
    by (rule sorted_wrt_ge_rev)
  then show ?thesis by (simp add: ordered_inv_def stored_def)
qed

lemma stored_cache: "cache_kept (kfs s p) (kfs (stored s this KFcounter vPairs) p)"
proof (cases "p = this")
  case True
  with stored_ordered [of s this KFcounter vPairs] show ?thesis by (simp add: cache_kept_def)
next
  case False
  then show ?thesis by (simp add: stored_def)
qed

lemma store_connections_vectors:
  assumes "store_connections s this KFcounter vPairs = Inr s'"
  shows "mvpOrderedConnectedKeyFrames (kfs s' p)
           = mvpOrderedConnectedKeyFrames (kfs (stored s this KFcounter vPairs) p)"
    and "mvOrderedWeights (kfs s' p) = mvOrderedWeights (kfs (stored s this KFcounter vPairs) p)"
  using store_connections_cases [OF assms] by (auto simp: AddChild_def)

lemma store_connections_cache:
  assumes "store_connections s this KFcounter vPairs = Inr s'"
  shows "cache_kept (kfs s p) (kfs s' p)"
    and "ordered_inv (kfs s' this)"
proof -
  have "cache_kept (kfs (stored s this KFcounter vPairs) p) (kfs s' p)"
    using store_connections_vectors [OF assms, of p] by (simp add: cache_kept_same)
  with stored_cache show "cache_kept (kfs s p) (kfs s' p)" by (rule cache_kept_trans)
  from stored_ordered [of s this KFcounter vPairs] store_connections_vectors [OF assms, of this]
  show "ordered_inv (kfs s' this)" by (simp add: ordered_inv_def)
qed

lemma UpdateConnections_cache:
  assumes "UpdateConnections s this upParent = Inr s'"
  shows "cache_kept (kfs s p) (kfs s' p)"
  using UpdateConnections_cases [OF assms]
proof (elim disjE exE conjE)
  assume "s' = s"
  then show ?thesis by simp
next
  fix KFcounter s1 nmax pKFmax vPairs s2 vPairs2
  assume 1: "promote_loop this KFcounter (s, 0, 0, []) = Inr (s1, nmax, pKFmax, vPairs)"
    and 2: "promote_max this (s1, nmax, pKFmax, vPairs) = Inr (s2, vPairs2)"
    and 3: "store_connections s2 this KFcounter vPairs2 = Inr s'"
  from promote_loop_cache [OF 1] promote_max_cache [OF 2]
  have "cache_kept (kfs s p) (kfs s2 p)" by (rule cache_kept_trans)
  then show ?thesis using store_connections_cache(1) [OF 3] by (rule cache_kept_trans)
qed

lemma PostLoad_restore_vectors:
  "mvpOrderedConnectedKeyFrames (PostLoad_restore d1 d2 d3 k) = mvpOrderedConnectedKeyFrames k"
  "mvOrderedWeights (PostLoad_restore d1 d2 d3 k) = mvOrderedWeights k"
  by (simp_all add: PostLoad_restore_def SetPose_members_def)

lemma PostLoad_cache:
  assumes "PostLoad s this mpKFid mpMPid mpCamId = Inr s'"
  shows "cache_kept (kfs s p) (kfs s' p)" and "ordered_inv (kfs s' this)"
proof -
  let ?s1 = "upd_kf s this (PostLoad_restore mpKFid mpMPid mpCamId)"
  from assms have u: "UpdateBestCovisibles ?s1 this = Inr s'" by (simp add: PostLoad_def)
  have "cache_kept (kfs s p) (kfs ?s1 p)"
    by (simp add: cache_kept_same PostLoad_restore_vectors)
  then show "cache_kept (kfs s p) (kfs s' p)"
    using UpdateBestCovisibles_cache [OF u] by (rule cache_kept_trans)
  from u show "ordered_inv (kfs s' this)" by (rule UpdateBestCovisibles_ordered)
qed

text \<open>The other operations of the graph. A deletion clears the keyframe vector of the
  keyframe it culls.\<close>

lemma foldE_EraseConnection_cache:
  assumes "foldE (\<lambda>s' pKF. if pKF = 0 then Inl NullPointer else EraseConnection s' pKF this) ps s = Inr s1"
  shows "cache_kept (kfs s p) (kfs s1 p)"
  using assms
proof (induction ps arbitrary: s)
  case Nil
  then show ?case by simp
next
  case (Cons q ps)
  from Cons.prems obtain s2 where 1: "EraseConnection s q this = Inr s2"
    and 2: "foldE (\<lambda>s' pKF. if pKF = 0 then Inl NullPointer else EraseConnection s' pKF this) ps s2 = Inr s1"
    by (auto split: sum.splits if_splits)
  from EraseConnection_cache [OF 1] Cons.IH [OF 2] show ?case by (rule cache_kept_trans)
qed

lemma SetBadFlag_delete_cache:
  assumes "SetBadFlag_delete s this = Inr s'"
  shows "p \<noteq> this \<Longrightarrow> cache_kept (kfs s p) (kfs s' p)"
    and "mbBad (kfs s' this) \<and> mvpOrderedConnectedKeyFrames (kfs s' this) = []"
proof -
  from SetBadFlag_delete_steps [OF assms] obtain s3 s4 cands s5 where
    1: "SetBadFlag_detach s this = Inr s3" and
    2: "reparent_loop s3 this (if mpParent (kfs s3 this) \<noteq> 0
                                then stdset_insert (mpParent (kfs s3 this)) [] else []) = Inr (s4, cands)" and
    3: "SetBadFlag_orphans s4 this = Inr s5" and 4: "s' = SetBadFlag_finish s5 this"
    by blast
  from SetBadFlag_detach_result [OF 1] obtain s1 where
    f: "foldE (\<lambda>s' pKF. if pKF = 0 then Inl NullPointer else EraseConnection s' pKF this)
               (map fst (mConnectedKeyFrameWeights (kfs s this))) s = Inr s1"
    and k3: "kfs s3 = (kfs s1)(this := (kfs s1 this)\<lparr> mConnectedKeyFrameWeights := [],
                                                       mvpOrderedConnectedKeyFrames := [] \<rparr>)"
    by blast
  have keep: "g (kfs s' q) = g (kfs s3 q)" if "keeps_tree g" "keeps_end g" for g :: "KeyFrame \<Rightarrow> 'b" and q
    using reparent_loop_keeps [OF 2 that(1), of q] SetBadFlag_orphans_keeps [OF 3 that(1), of q]
      SetBadFlag_finish_keeps [OF that, of s5 this q] 4 by simp
  have v: "mvpOrderedConnectedKeyFrames (kfs s' q) = mvpOrderedConnectedKeyFrames (kfs s3 q)"
    "mvOrderedWeights (kfs s' q) = mvOrderedWeights (kfs s3 q)" for q
    by (simp_all add: keep)
  show "mbBad (kfs s' this) \<and> mvpOrderedConnectedKeyFrames (kfs s' this) = []"
    using SetBadFlag_delete_bad [OF assms] v(1) [of this] k3 by simp
  assume "p \<noteq> this"
  with k3 have "kfs s3 p = kfs s1 p" by simp
  with v [of p] have "cache_kept (kfs s1 p) (kfs s' p)" by (simp add: cache_kept_same)
  with foldE_EraseConnection_cache [OF f] show "cache_kept (kfs s p) (kfs s' p)"
    by (rule cache_kept_trans)
qed

lemma SetBadFlag_cache:
  assumes "SetBadFlag s this = Inr s'"
  shows "cache_kept (kfs s p) (kfs s' p)
       \<or> (mbBad (kfs s' p) \<and> mvpOrderedConnectedKeyFrames (kfs s' p) = [])"
  using SetBadFlag_cases [OF assms]
proof (elim conjE disjE)
  assume "s' = s"
  then show ?thesis by simp
next
  assume "s' = upd_kf s this (\<lambda>k. k\<lparr> mbToBeErased := True \<rparr>)"
  then show ?thesis by (simp add: cache_kept_same)
next
  assume d: "SetBadFlag_delete s this = Inr s'"
  from SetBadFlag_delete_cache(1) [OF d, of p] SetBadFlag_delete_cache(2) [OF d]
  show ?thesis by (cases "p = this") auto
qed

lemma SetErase_cache:
  assumes "SetErase s this = Inr s'"
  shows "cache_kept (kfs s p) (kfs s' p)
       \<or> (mbBad (kfs s' p) \<and> mvpOrderedConnectedKeyFrames (kfs s' p) = [])"
proof -
  let ?s1 = "if mspLoopEdges (kfs s this) = []
             then upd_kf s this (\<lambda>k. k\<lparr> mbNotErase := False \<rparr>) else s"
  have a: "cache_kept (kfs s p) (kfs ?s1 p)" by (simp add: cache_kept_same)
  from assms have "s' = ?s1 \<or> SetBadFlag ?s1 this = Inr s'"
    by (auto simp: SetErase_def Let_def split: if_splits)
  then show ?thesis
  proof
    assume "s' = ?s1"
    with a show ?thesis by simp
  next
    assume "SetBadFlag ?s1 this = Inr s'"
    from SetBadFlag_cache [OF this, of p] a show ?thesis
      by (auto intro: cache_kept_trans)
  qed
qed

lemma PreSave_vectors:
  assumes "PreSave s this spKF spMP spCam = Inr s'"
  shows "cache_kept (kfs s p) (kfs s' p)"
proof -
  from assms obtain f where "s' = upd_kf s this f"
    and "\<And>k. mvpOrderedConnectedKeyFrames (f k) = mvpOrderedConnectedKeyFrames k"
    and "\<And>k. mvOrderedWeights (f k) = mvOrderedWeights k"
    unfolding PreSave_def Let_def
    by (auto split: sum.splits)
  then show ?thesis by (simp add: cache_kept_same)
qed

lemma graph_step_cache:
  assumes "graph_step s s'"
  shows "cache_kept (kfs s p) (kfs s' p)
       \<or> (mbBad (kfs s' p) \<and> mvpOrderedConnectedKeyFrames (kfs s' p) = [])"
  using assms
proof (induction rule: graph_step.induct)
  case (step_AddConnection s this pKF w s')
  then show ?case by (simp add: AddConnection_cache)
next
  case (step_EraseConnection s this pKF s')
  then show ?case by (simp add: EraseConnection_cache)
next
  case (step_UpdateBestCovisibles s this s')
  then show ?case by (simp add: UpdateBestCovisibles_cache)
next
  case (step_UpdateConnections s this upParent s')
  then show ?case by (simp add: UpdateConnections_cache)
next
  case (step_AddChild s this pKF)
  show ?case by (simp add: AddChild_def cache_kept_same)
next
  case (step_EraseChild s this pKF)
  show ?case by (simp add: EraseChild_def cache_kept_same)
next
  case (step_ChangeParent s this pKF s')
  from ChangeParent_keeps [OF step_ChangeParent.hyps, of mvpOrderedConnectedKeyFrames p]
    ChangeParent_keeps [OF step_ChangeParent.hyps, of mvOrderedWeights p]
  show ?case by (simp add: cache_kept_same)
next
  case (step_SetNotErase s this)
  show ?case by (simp add: SetNotErase_def cache_kept_same)
next
  case (step_AddLoopEdge s this pKF)
  show ?case by (simp add: AddLoopEdge_def cache_kept_same)
next
  case (step_AddMergeEdge s this pKF)
  show ?case by (simp add: AddMergeEdge_def cache_kept_same)
next
  case (step_SetBadFlag s this s')
  then show ?case by (rule SetBadFlag_cache)
next
  case (step_SetErase s this s')
  then show ?case by (rule SetErase_cache)
next
  case (step_SetPose s this Tcw)
  show ?case by (simp add: SetPose_def SetPose_members_def cache_kept_same)
next
  case (step_PreSave s this spKF spMP spCam s')
  then show ?case by (simp add: PreSave_vectors)
next
  case (step_PostLoad s this mpKFid mpMPid mpCamId s')
  then show ?case by (simp add: PostLoad_cache(1))
qed

lemma graph_step_cache_inv:
  assumes "graph_step s s'" and "cache_inv (kfs s p)"
  shows "cache_inv (kfs s' p)"
  using graph_step_cache [OF assms(1), of p]
proof
  assume k: "cache_kept (kfs s p) (kfs s' p)"
  from assms(2) show ?thesis unfolding cache_inv_def
  proof
    assume "ordered_inv (kfs s p)"
    with k have "ordered_inv (kfs s' p)" by (rule cache_kept_ordered)
    then show "ordered_inv (kfs s' p) \<or> mbBad (kfs s' p) \<and> mvpOrderedConnectedKeyFrames (kfs s' p) = []"
      by simp
  next
    assume b: "mbBad (kfs s p) \<and> mvpOrderedConnectedKeyFrames (kfs s p) = []"
    then have "mbBad (kfs s' p)" using graph_step_bad_mono [OF assms(1)] by blast
    with k b show "ordered_inv (kfs s' p) \<or> mbBad (kfs s' p) \<and> mvpOrderedConnectedKeyFrames (kfs s' p) = []"
      by (auto simp: cache_kept_def)
  qed
next
  assume "mbBad (kfs s' p) \<and> mvpOrderedConnectedKeyFrames (kfs s' p) = []"
  then show ?thesis by (simp add: cache_inv_def)
qed

lemma graph_steps_cache_inv:
  assumes "graph_step\<^sup>*\<^sup>* s s'" and "cache_inv (kfs s p)"
  shows "cache_inv (kfs s' p)"
  using assms by (induction rule: rtranclp_induct) (auto dest: graph_step_cache_inv)

lemma GetCovisiblesByWeight_cache_inv:
  assumes "cache_inv (kfs s this)"
  shows "GetCovisiblesByWeight s this w =
         map fst (filter (\<lambda>(p, x). x \<ge> w)
           (zip (mvpOrderedConnectedKeyFrames (kfs s this)) (mvOrderedWeights (kfs s this))))"
  using assms unfolding cache_inv_def
proof
  assume "ordered_inv (kfs s this)"
  then show ?thesis by (rule GetCovisiblesByWeight_inv)
next
  assume "mbBad (kfs s this) \<and> mvpOrderedConnectedKeyFrames (kfs s this) = []"
  then show ?thesis by (simp add: GetCovisiblesByWeight_def)
qed

text \<open>
  C10: each of AddConnection, EraseConnection, UpdateConnections,
  UpdateBestCovisibles and PostLoad, when it returns, leaves every keyframe whose two
  ordered vectors had one length and non-increasing weights in that state
  (UpdateBestCovisibles and PostLoad also establish it for the keyframe they rewrite,
  whatever its vectors were). On a
  keyframe in that state GetCovisiblesByWeight returns exactly the keyframes of the
  ordered vector whose cached weight is at least the threshold asked for. And in
  every world that the operations of the graph, culling included, build from a world
  where the invariant holds everywhere, the invariant holds for every keyframe that is
  not bad, and GetCovisiblesByWeight returns that list for every keyframe (for a
  culled keyframe, whose keyframe vector is cleared, the empty list).
\<close>

theorem ordered_covisibles_invariant:
  "(\<forall>s'. AddConnection s this pKF n = Inr s' \<longrightarrow>
        (\<forall>p. ordered_inv (kfs s p) \<longrightarrow> ordered_inv (kfs s' p)))
 \<and> (\<forall>s'. EraseConnection s this pKF = Inr s' \<longrightarrow>
        (\<forall>p. ordered_inv (kfs s p) \<longrightarrow> ordered_inv (kfs s' p)))
 \<and> (\<forall>s'. UpdateConnections s this upParent = Inr s' \<longrightarrow>
        (\<forall>p. ordered_inv (kfs s p) \<longrightarrow> ordered_inv (kfs s' p)))
 \<and> (\<forall>s'. UpdateBestCovisibles s this = Inr s' \<longrightarrow>
        ordered_inv (kfs s' this) \<and> (\<forall>p. ordered_inv (kfs s p) \<longrightarrow> ordered_inv (kfs s' p)))
 \<and> (\<forall>s'. PostLoad s this mpKFid mpMPid mpCamId = Inr s' \<longrightarrow>
        ordered_inv (kfs s' this) \<and> (\<forall>p. ordered_inv (kfs s p) \<longrightarrow> ordered_inv (kfs s' p)))
 \<and> (ordered_inv (kfs s this) \<longrightarrow>
      GetCovisiblesByWeight s this w =
        map fst (filter (\<lambda>(p, x). x \<ge> w)
          (zip (mvpOrderedConnectedKeyFrames (kfs s this)) (mvOrderedWeights (kfs s this)))))
 \<and> (\<forall>s0. world_ordered_inv s0 \<and> graph_step\<^sup>*\<^sup>* s0 s \<longrightarrow>
      (\<not> isBad s this \<longrightarrow> ordered_inv (kfs s this)) \<and>
      GetCovisiblesByWeight s this w =
        map fst (filter (\<lambda>(p, x). x \<ge> w)
          (zip (mvpOrderedConnectedKeyFrames (kfs s this)) (mvOrderedWeights (kfs s this)))))"
proof (intro conjI allI impI)
  fix s' p
  assume "AddConnection s this pKF n = Inr s'" "ordered_inv (kfs s p)"
  then show "ordered_inv (kfs s' p)"
    using AddConnection_cache cache_kept_ordered by blast
next
  fix s' p
  assume "EraseConnection s this pKF = Inr s'" "ordered_inv (kfs s p)"
  then show "ordered_inv (kfs s' p)"
    using EraseConnection_cache cache_kept_ordered by blast
next
  fix s' p
  assume "UpdateConnections s this upParent = Inr s'" "ordered_inv (kfs s p)"
  then show "ordered_inv (kfs s' p)"
    using UpdateConnections_cache cache_kept_ordered by blast
next
  fix s'
  assume "UpdateBestCovisibles s this = Inr s'"
  then show "ordered_inv (kfs s' this)" by (rule UpdateBestCovisibles_ordered)
next
  fix s' p
  assume "UpdateBestCovisibles s this = Inr s'" "ordered_inv (kfs s p)"
  then show "ordered_inv (kfs s' p)"
    using UpdateBestCovisibles_cache cache_kept_ordered by blast
next
  fix s'
  assume "PostLoad s this mpKFid mpMPid mpCamId = Inr s'"
  then show "ordered_inv (kfs s' this)" by (rule PostLoad_cache(2))
next
  fix s' p
  assume "PostLoad s this mpKFid mpMPid mpCamId = Inr s'" "ordered_inv (kfs s p)"
  then show "ordered_inv (kfs s' p)"
    using PostLoad_cache(1) cache_kept_ordered by blast
next
  assume "ordered_inv (kfs s this)"
  then show "GetCovisiblesByWeight s this w =
        map fst (filter (\<lambda>(p, x). x \<ge> w)
          (zip (mvpOrderedConnectedKeyFrames (kfs s this)) (mvOrderedWeights (kfs s this))))"
    by (rule GetCovisiblesByWeight_inv)
next
  fix s0
  assume a: "world_ordered_inv s0 \<and> graph_step\<^sup>*\<^sup>* s0 s"
  then have "cache_inv (kfs s0 this)" by (simp add: world_ordered_inv_def cache_inv_def)
  with a have c: "cache_inv (kfs s this)" using graph_steps_cache_inv by blast
  {
    assume "\<not> isBad s this"
    with c show "ordered_inv (kfs s this)" by (auto simp: cache_inv_def isBad_def)
  }
  from c show "GetCovisiblesByWeight s this w =
        map fst (filter (\<lambda>(p, x). x \<ge> w)
          (zip (mvpOrderedConnectedKeyFrames (kfs s this)) (mvOrderedWeights (kfs s this))))"
    by (rule GetCovisiblesByWeight_cache_inv)
qed

text \<open>
  The five operations on the tree and on the landmark example; PostLoad on the
  keyframe reloaded from its backup members; and the world after keyframe 5 has been
  culled, where the vectors of keyframe 5 have different lengths: the invariant of
  the live keyframe 4 is kept there and by the next AddConnection, and the queries
  on the live keyframes 3 and 4 and on the culled keyframe 5 return the lists.
\<close>

theorem ordered_covisibles_invariant_witness:
  "world_ordered_inv w_tree
   \<and> \<not> isl (AddConnection w_tree 4 5 12)
   \<and> ordered_inv (kfs (projr (AddConnection w_tree 4 5 12)) 4)
   \<and> \<not> isl (EraseConnection w_tree 4 5)
   \<and> ordered_inv (kfs (projr (EraseConnection w_tree 4 5)) 4)
   \<and> \<not> isl (UpdateConnections w_cov 2 True)
   \<and> ordered_inv (kfs (projr (UpdateConnections w_cov 2 True)) 1)
   \<and> \<not> isl (UpdateBestCovisibles w_tree 3)
   \<and> ordered_inv (kfs (projr (UpdateBestCovisibles w_tree 3)) 3)
   \<and> \<not> isl (PostLoad w_archived 3 ids_tree [] [])
   \<and> ordered_inv (kfs (projr (PostLoad w_archived 3 ids_tree [] [])) 3)
   \<and> ordered_inv (kfs (projr (PostLoad w_archived 3 ids_tree [] [])) 4)
   \<and> mvOrderedWeights (kfs (projr (PostLoad w_archived 3 ids_tree [] [])) 3) = [30, 25, 20]
   \<and> GetCovisiblesByWeight w_tree 3 25 = [4, 5]
   \<and> SetBadFlag w_tree 5 = Inr w_after_cull
   \<and> graph_step\<^sup>*\<^sup>* w_tree w_after_cull
   \<and> mvpOrderedConnectedKeyFrames (kfs w_after_cull 5) = []
   \<and> mvOrderedWeights (kfs w_after_cull 5) = [25, 8]
   \<and> \<not> world_ordered_inv w_after_cull
   \<and> ordered_inv (kfs w_after_cull 4)
   \<and> GetCovisiblesByWeight w_after_cull 3 25 = [4]
   \<and> GetCovisiblesByWeight w_after_cull 5 0 = []
   \<and> \<not> isl (AddConnection w_after_cull 4 2 7)
   \<and> ordered_inv (kfs (projr (AddConnection w_after_cull 4 2 7)) 4)
   \<and> GetCovisiblesByWeight (projr (AddConnection w_after_cull 4 2 7)) 4 7 = [3, 2]"
proof -
  let ?a = "projr (AddConnection w_tree 4 5 12)"
  let ?e = "projr (EraseConnection w_tree 4 5)"
  let ?c = "projr (UpdateConnections w_cov 2 True)"
  let ?u = "projr (UpdateBestCovisibles w_tree 3)"
  let ?l = "projr (PostLoad w_archived 3 ids_tree [] [])"
  let ?n = "projr (AddConnection w_after_cull 4 2 7)"
  note inv = world_ordered_inv_w_tree
  have tree: "ordered_inv (kfs w_tree p)" for p
    using world_ordered_inv_w_tree by (simp add: world_ordered_inv_def)
  have cov: "ordered_inv (kfs w_cov p)" for p
    using world_ordered_inv_w_cov by (simp add: world_ordered_inv_def)
  have a: "\<not> isl (AddConnection w_tree 4 5 12)" by code_simp
  then have a0: "AddConnection w_tree 4 5 12 = Inr ?a" by simp
  have a': "ordered_inv (kfs ?a 4)"
    by (rule ordered_covisibles_invariant [THEN conjunct1, rule_format, OF a0 tree])
  have e: "\<not> isl (EraseConnection w_tree 4 5)" by code_simp
  then have e0: "EraseConnection w_tree 4 5 = Inr ?e" by simp
  have e': "ordered_inv (kfs ?e 4)"
    by (rule ordered_covisibles_invariant [THEN conjunct2, THEN conjunct1, rule_format, OF e0 tree])
  have c: "\<not> isl (UpdateConnections w_cov 2 True)" by code_simp
  then have c0: "UpdateConnections w_cov 2 True = Inr ?c" by simp
  have c': "ordered_inv (kfs ?c 1)"
    by (rule ordered_covisibles_invariant [THEN conjunct2, THEN conjunct2, THEN conjunct1,
          rule_format, OF c0 cov])
  have u: "\<not> isl (UpdateBestCovisibles w_tree 3)" by code_simp
  then have u0: "UpdateBestCovisibles w_tree 3 = Inr ?u" by simp
  have u': "ordered_inv (kfs ?u 3)"
    by (rule ordered_covisibles_invariant [THEN conjunct2, THEN conjunct2, THEN conjunct2,
          THEN conjunct1, rule_format, OF u0, THEN conjunct1])
  have l: "\<not> isl (PostLoad w_archived 3 ids_tree [] [])" by code_simp
  then have l0: "PostLoad w_archived 3 ids_tree [] [] = Inr ?l" by simp
  have l4: "ordered_inv (kfs w_archived 4)" by code_simp
  note pl = ordered_covisibles_invariant [THEN conjunct2, THEN conjunct2, THEN conjunct2,
          THEN conjunct2, THEN conjunct1, rule_format, OF l0]
  have l': "ordered_inv (kfs ?l 3)" by (rule pl [THEN conjunct1])
  have l'': "ordered_inv (kfs ?l 4)" by (rule pl [THEN conjunct2, rule_format, OF l4])
  have lw: "mvOrderedWeights (kfs ?l 3) = [30, 25, 20]" by code_simp
  note qry = ordered_covisibles_invariant [THEN conjunct2, THEN conjunct2, THEN conjunct2,
          THEN conjunct2, THEN conjunct2, THEN conjunct1, rule_format]
  note always = ordered_covisibles_invariant [THEN conjunct2, THEN conjunct2, THEN conjunct2,
          THEN conjunct2, THEN conjunct2, THEN conjunct2, rule_format]
  have "GetCovisiblesByWeight w_tree 3 25 =
           map fst (filter (\<lambda>(p, x). x \<ge> 25)
             (zip (mvpOrderedConnectedKeyFrames (kfs w_tree 3)) (mvOrderedWeights (kfs w_tree 3))))"
    by (rule qry [OF tree])
  also have "\<dots> = [4, 5]" by code_simp
  finally have q: "GetCovisiblesByWeight w_tree 3 25 = [4, 5]" .
  have "\<not> isl (SetBadFlag w_tree 5)" by code_simp
  then have d: "SetBadFlag w_tree 5 = Inr w_after_cull" by (simp add: w_after_cull_def)
  then have "graph_step w_tree w_after_cull" by (rule step_SetBadFlag)
  then have r: "graph_step\<^sup>*\<^sup>* w_tree w_after_cull" by (rule r_into_rtranclp)
  have k5: "mvpOrderedConnectedKeyFrames (kfs w_after_cull 5) = []" by code_simp
  have w5: "mvOrderedWeights (kfs w_after_cull 5) = [25, 8]" by code_simp
  from k5 w5 have "\<not> ordered_inv (kfs w_after_cull 5)" by (simp add: ordered_inv_def)
  then have nw: "\<not> world_ordered_inv w_after_cull"
    unfolding world_ordered_inv_def by blast
  have live: "\<not> isBad w_after_cull 4" by code_simp
  have o4: "ordered_inv (kfs w_after_cull 4)"
    by (rule always [OF conjI [OF inv r], THEN conjunct1, rule_format, OF live])
  have "GetCovisiblesByWeight w_after_cull 3 25 =
           map fst (filter (\<lambda>(p, x). x \<ge> 25)
             (zip (mvpOrderedConnectedKeyFrames (kfs w_after_cull 3)) (mvOrderedWeights (kfs w_after_cull 3))))"
    by (rule always [OF conjI [OF inv r], THEN conjunct2])
  also have "\<dots> = [4]" by code_simp
  finally have q3: "GetCovisiblesByWeight w_after_cull 3 25 = [4]" .
  have "GetCovisiblesByWeight w_after_cull 5 0 =
           map fst (filter (\<lambda>(p, x). x \<ge> 0)
             (zip (mvpOrderedConnectedKeyFrames (kfs w_after_cull 5)) (mvOrderedWeights (kfs w_after_cull 5))))"
    by (rule always [OF conjI [OF inv r], THEN conjunct2])
  also have "\<dots> = []" by (simp add: k5)
  finally have q5: "GetCovisiblesByWeight w_after_cull 5 0 = []" .
  have n: "\<not> isl (AddConnection w_after_cull 4 2 7)" by code_simp
  then have n0: "AddConnection w_after_cull 4 2 7 = Inr ?n" by simp
  have n': "ordered_inv (kfs ?n 4)"
    by (rule ordered_covisibles_invariant [THEN conjunct1, rule_format, OF n0 o4])
  from n0 have "graph_step w_after_cull ?n" by (rule step_AddConnection)
  with r have rn: "graph_step\<^sup>*\<^sup>* w_tree ?n" by (rule rtranclp.rtrancl_into_rtrancl)
  have "GetCovisiblesByWeight ?n 4 7 =
           map fst (filter (\<lambda>(p, x). x \<ge> 7)
             (zip (mvpOrderedConnectedKeyFrames (kfs ?n 4)) (mvOrderedWeights (kfs ?n 4))))"
    by (rule always [OF conjI [OF inv rn], THEN conjunct2])
  also have "\<dots> = [3, 2]" by code_simp
  finally have qn: "GetCovisiblesByWeight ?n 4 7 = [3, 2]" .
  show ?thesis
    by (intro conjI) (fact inv a a' e e' c c' u u' l l' l'' lw q d r k5 w5 nw o4 q3 q5 n n' qn)+
qed

subsection \<open>Reattachment of the children of a culled keyframe\<close>














lemma weights_shrunk_refl [simp]: "weights_shrunk k k"
  by (simp add: weights_shrunk_def)










end
